theory Spec2Isabelle
  imports Complex_Main "HOL-Library.Sublist"
begin

section \<open>The credential pool (services/apiKeyManager.ts)\<close>

text \<open>
  JavaScript numbers that hold counters and millisecond timestamps are integers here.
  Every \<^verbatim>\<open>Date.now()\<close> read inside one synchronous method call yields the same value,
  the parameter \<open>now\<close> of the operation. A secret is a \<open>string\<close>.
\<close>

datatype CircuitState = CLOSED | OPEN | HALF_OPEN

record KeyState =
  key :: string
  failCount :: int
  failedAt :: "int option"
  isQuotaError :: bool
  circuitState :: CircuitState
  lastUsed :: int
  successCount :: int
  totalRequests :: int
  halfOpenTestTime :: "int option"

text \<open>The six fields that \<^verbatim>\<open>saveState\<close> writes for one credential.\<close>

record Persisted =
  p_failCount :: int
  p_circuitState :: CircuitState
  p_lastUsed :: int
  p_failedAt :: "int option"
  p_halfOpenTestTime :: "int option"
  p_isQuotaError :: bool

text \<open>
  The storage slot \<^verbatim>\<open>api_rotation_state\<close>: the manager may have no storage object at all
  (\<open>NoStorage\<close>); otherwise the slot is absent (\<open>Storage None\<close>) or holds the parsed JSON
  object, a finite map from secrets to persisted fields. A slot whose text does not parse is
  read as an absent one: \<^verbatim>\<open>loadState\<close> catches the error and changes nothing.
\<close>

datatype Storage = NoStorage | Storage "(string \<rightharpoonup> Persisted) option"

record ApiKeyManager =
  keys :: "KeyState list"
  storage :: Storage

definition MAX_CONSECUTIVE_FAILURES :: int where
  "MAX_CONSECUTIVE_FAILURES = 5"

definition COOLDOWN_TRANSIENT :: int where
  "COOLDOWN_TRANSIENT = 60 * 1000"

definition COOLDOWN_QUOTA :: int where
  "COOLDOWN_QUOTA = 5 * 60 * 1000"

definition HALF_OPEN_TEST_DELAY :: int where
  "HALF_OPEN_TEST_DELAY = 60 * 1000"

text \<open>\<^verbatim>\<open>Array.prototype.sort\<close> with a comparator: a stable insertion sort.\<close>

fun insertBy :: "('a \<Rightarrow> 'a \<Rightarrow> int) \<Rightarrow> 'a \<Rightarrow> 'a list \<Rightarrow> 'a list" where
  "insertBy cmp a [] = [a]"
| "insertBy cmp a (b # bs) = (if cmp a b \<le> 0 then a # b # bs else b # insertBy cmp a bs)"

definition sortBy :: "('a \<Rightarrow> 'a \<Rightarrow> int) \<Rightarrow> 'a list \<Rightarrow> 'a list" where
  "sortBy cmp as = foldr (insertBy cmp) as []"

text \<open>\<^verbatim>\<open>Array.from(new Set(xs))\<close>: the first occurrence of every element, in order.\<close>

fun uniqueInOrder :: "'a list \<Rightarrow> 'a list \<Rightarrow> 'a list" where
  "uniqueInOrder seen [] = []"
| "uniqueInOrder seen (a # as) =
     (if a \<in> set seen then uniqueInOrder seen as else a # uniqueInOrder (a # seen) as)"

definition persisted :: "KeyState \<Rightarrow> Persisted" where
  "persisted k = \<lparr> p_failCount = failCount k, p_circuitState = circuitState k,
                   p_lastUsed = lastUsed k, p_failedAt = failedAt k,
                   p_halfOpenTestTime = halfOpenTestTime k, p_isQuotaError = isQuotaError k \<rparr>"

text \<open>\<^verbatim>\<open>Object.assign(k, data[k.key])\<close>\<close>

definition assign :: "KeyState \<Rightarrow> Persisted \<Rightarrow> KeyState" where
  "assign k p = k\<lparr> failCount := p_failCount p, circuitState := p_circuitState p,
                   lastUsed := p_lastUsed p, failedAt := p_failedAt p,
                   halfOpenTestTime := p_halfOpenTestTime p, isQuotaError := p_isQuotaError p \<rparr>"

text \<open>The object built by the \<^verbatim>\<open>reduce\<close> of \<^verbatim>\<open>saveState\<close>: a later entry overrides an earlier one.\<close>

definition snapshot :: "KeyState list \<Rightarrow> (string \<rightharpoonup> Persisted)" where
  "snapshot ks = foldl (\<lambda>acc k. acc(key k \<mapsto> persisted k)) Map.empty ks"

definition saveState :: "ApiKeyManager \<Rightarrow> ApiKeyManager" where
  "saveState s =
     (case storage s of
        NoStorage \<Rightarrow> s
      | Storage _ \<Rightarrow> s\<lparr> storage := Storage (Some (snapshot (keys s))) \<rparr>)"

definition loadState :: "ApiKeyManager \<Rightarrow> ApiKeyManager" where
  "loadState s =
     (case storage s of
        NoStorage \<Rightarrow> s
      | Storage None \<Rightarrow> s
      | Storage (Some data) \<Rightarrow>
          s\<lparr> keys := map (\<lambda>k. case data (key k) of None \<Rightarrow> k | Some p \<Rightarrow> assign k p) (keys s) \<rparr>)"

definition freshKey :: "string \<Rightarrow> KeyState" where
  "freshKey k = \<lparr> key = k, failCount = 0, failedAt = None, isQuotaError = False,
                  circuitState = CLOSED, lastUsed = 0, successCount = 0, totalRequests = 0,
                  halfOpenTestTime = None \<rparr>"

text \<open>The constructor: deduplicate, drop falsy (empty) secrets, start every record fresh, reload.\<close>

definition newApiKeyManager :: "string list \<Rightarrow> Storage \<Rightarrow> ApiKeyManager" where
  "newApiKeyManager initialKeys st =
     (let uniqueKeys = filter (\<lambda>k. k \<noteq> []) (uniqueInOrder [] initialKeys)
      in loadState \<lparr> keys = map freshKey uniqueKeys, storage = st \<rparr>)"

text \<open>
  \<^verbatim>\<open>isOnCooldown\<close> answers and may move the record from OPEN to HALF_OPEN: it returns the
  answer with the record as it leaves it. A timestamp is truthy when it is neither null nor 0.
\<close>

definition isOnCooldown :: "int \<Rightarrow> KeyState \<Rightarrow> bool \<times> KeyState" where
  "isOnCooldown now k =
     (if circuitState k = OPEN then
        (case halfOpenTestTime k of
           Some h \<Rightarrow> if h \<noteq> 0 \<and> now \<ge> h then (False, k\<lparr> circuitState := HALF_OPEN \<rparr>)
                     else (True, k)
         | None \<Rightarrow> (True, k))
      else
        (case failedAt k of
           Some f \<Rightarrow>
             if f \<noteq> 0 \<and> now - f < (if isQuotaError k then COOLDOWN_QUOTA else COOLDOWN_TRANSIENT)
             then (True, k) else (False, k)
         | None \<Rightarrow> (False, k)))"

text \<open>
  \<^verbatim>\<open>this.keys.filter(k => !this.isOnCooldown(k))\<close>: the records after the checks, and the
  positions of those that passed (the candidates alias the records of \<^verbatim>\<open>this.keys\<close>).
\<close>

definition checkAll :: "int \<Rightarrow> KeyState list \<Rightarrow> KeyState list" where
  "checkAll now ks = map (\<lambda>k. snd (isOnCooldown now k)) ks"

definition passing :: "int \<Rightarrow> KeyState list \<Rightarrow> nat list" where
  "passing now ks = filter (\<lambda>i. \<not> fst (isOnCooldown now (ks ! i))) [0 ..< length ks]"

definition byFailedAt :: "KeyState \<Rightarrow> KeyState \<Rightarrow> int" where
  "byFailedAt a b = (case failedAt a of None \<Rightarrow> 0 | Some f \<Rightarrow> f) - (case failedAt b of None \<Rightarrow> 0 | Some f \<Rightarrow> f)"

definition byHealth :: "KeyState \<Rightarrow> KeyState \<Rightarrow> int" where
  "byHealth a b = (if failCount a \<noteq> failCount b then failCount a - failCount b
                   else lastUsed a - lastUsed b)"

definition getKey :: "int \<Rightarrow> ApiKeyManager \<Rightarrow> string option \<times> ApiKeyManager" where
  "getKey now s0 =
     (let s = loadState s0 in
      if keys s = [] then (None, s)
      else
        let candidates = passing now (keys s);
            ks = checkAll now (keys s)
        in if candidates = [] then
             (case sortBy byFailedAt ks of
                [] \<Rightarrow> (None, s\<lparr> keys := ks \<rparr>)
              | k # _ \<Rightarrow> (if key k = [] then None else Some (key k), s\<lparr> keys := ks \<rparr>))
           else
             (let selected = hd (sortBy (\<lambda>i j. byHealth (ks ! i) (ks ! j)) candidates);
                  ks' = ks[selected := (ks ! selected)\<lparr> lastUsed := now \<rparr>]
              in (Some (key (ks' ! selected)), saveState (s\<lparr> keys := ks' \<rparr>))))"

text \<open>The position of \<^verbatim>\<open>candidates[0]\<close> after the sort, when there are candidates.\<close>

definition selectedIndex :: "int \<Rightarrow> ApiKeyManager \<Rightarrow> nat" where
  "selectedIndex now s =
     hd (sortBy (\<lambda>i j. byHealth (checkAll now (keys (loadState s)) ! i)
                                 (checkAll now (keys (loadState s)) ! j))
           (passing now (keys (loadState s))))"

definition getKeyCount :: "ApiKeyManager \<Rightarrow> nat" where
  "getKeyCount s = length (keys s)"

text \<open>\<^verbatim>\<open>this.keys.find(x => x.key === key)\<close>, as the position of the first match.\<close>

definition findKey :: "string \<Rightarrow> KeyState list \<Rightarrow> nat option" where
  "findKey kid ks = (case filter (\<lambda>i. key (ks ! i) = kid) [0 ..< length ks] of
                       [] \<Rightarrow> None | i # _ \<Rightarrow> Some i)"

text \<open>
  The record that \<^verbatim>\<open>markSuccess\<close> leaves in place of the one it found, and the one that
  \<^verbatim>\<open>markFailed\<close> leaves: the counters and the failure stamp first, then the transition,
  which reads the circuit state the record had on entry.
\<close>

definition succeededRecord :: "KeyState \<Rightarrow> KeyState" where
  "succeededRecord k =
     k\<lparr> circuitState := CLOSED, failCount := 0, failedAt := None, isQuotaError := False,
        successCount := successCount k + 1, totalRequests := totalRequests k + 1 \<rparr>"

definition failedRecord :: "bool \<Rightarrow> int \<Rightarrow> KeyState \<Rightarrow> KeyState" where
  "failedRecord isQuota now k =
     (let k1 = k\<lparr> failedAt := Some now, failCount := failCount k + 1,
                   totalRequests := totalRequests k + 1, isQuotaError := isQuota \<rparr>
      in if circuitState k1 = HALF_OPEN then
           k1\<lparr> circuitState := OPEN, halfOpenTestTime := Some (now + HALF_OPEN_TEST_DELAY) \<rparr>
         else if failCount k1 \<ge> MAX_CONSECUTIVE_FAILURES \<or> isQuota then
           k1\<lparr> circuitState := OPEN,
               halfOpenTestTime :=
                 Some (now + (if isQuota then COOLDOWN_QUOTA else HALF_OPEN_TEST_DELAY)) \<rparr>
         else k1)"

definition markSuccess :: "string \<Rightarrow> ApiKeyManager \<Rightarrow> ApiKeyManager" where
  "markSuccess kid s =
     (case findKey kid (keys s) of
        None \<Rightarrow> s
      | Some i \<Rightarrow> saveState (s\<lparr> keys := (keys s)[i := succeededRecord (keys s ! i)] \<rparr>))"

definition markFailed :: "string \<Rightarrow> bool \<Rightarrow> int \<Rightarrow> ApiKeyManager \<Rightarrow> ApiKeyManager" where
  "markFailed kid isQuota now s =
     (case findKey kid (keys s) of
        None \<Rightarrow> s
      | Some i \<Rightarrow> saveState (s\<lparr> keys := (keys s)[i := failedRecord isQuota now (keys s ! i)] \<rparr>))"

text \<open>
  \<^verbatim>\<open>getPoolStatus\<close> reports (secret suffix, circuit state, failures, total, last used,
  cooling down) for every record; its cooldown checks leave their transitions in memory.
\<close>

definition getPoolStatus ::
  "int \<Rightarrow> ApiKeyManager \<Rightarrow> (string \<times> CircuitState \<times> int \<times> int \<times> int \<times> bool) list \<times> ApiKeyManager" where
  "getPoolStatus now s =
     (map (\<lambda>k. (drop (length (key k) - 4) (key k), circuitState k, failCount k,
                 totalRequests k, lastUsed k, fst (isOnCooldown now k))) (keys s),
      s\<lparr> keys := checkAll now (keys s) \<rparr>)"

text \<open>
  The record of a secret, and whether a secret is among the candidates that \<open>getKey\<close>
  computes at a given time. The constructor makes the secrets of a pool distinct and
  non-empty, and no method touches the field \<open>key\<close>: a pool is well formed.
\<close>

definition lookupKey :: "string \<Rightarrow> ApiKeyManager \<Rightarrow> KeyState option" where
  "lookupKey kid s = map_option (\<lambda>i. keys s ! i) (findKey kid (keys s))"

definition eligible :: "int \<Rightarrow> string \<Rightarrow> ApiKeyManager \<Rightarrow> bool" where
  "eligible now kid s0 =
     (let s = loadState s0
      in list_ex (\<lambda>i. key (keys s ! i) = kid) (passing now (keys s)))"

definition wellFormed :: "ApiKeyManager \<Rightarrow> bool" where
  "wellFormed s = (distinct (map key (keys s)) \<and> [] \<notin> set (map key (keys s)))"

section \<open>The layer engine (hooks/useStudioState.ts)\<close>

text \<open>
  A layer as \<^verbatim>\<open>addLayer\<close> builds it. Coordinates, scale and rotation are JavaScript numbers,
  taken as real numbers: rounding, infinities and NaN of the floating-point format are left out.
  A callback of the hook closes over the state of the render that created it. The
  operations below are the callbacks called from the render of the state they are applied
  to: the hook has rendered again since the previous call. \<open>commitFrom\<close> is \<^verbatim>\<open>commit\<close> with
  the render made explicit.
\<close>

datatype BlendMode = normal | multiply | screen

record PlacedLayer =
  uid :: string
  assetId :: string
  x :: real
  y :: real
  scale :: real
  rotation :: real
  blendMode :: "BlendMode option"

text \<open>\<^verbatim>\<open>Partial<PlacedLayer>\<close>: every field may be absent.\<close>

record LayerUpdates =
  u_uid :: "string option"
  u_assetId :: "string option"
  u_x :: "real option"
  u_y :: "real option"
  u_scale :: "real option"
  u_rotation :: "real option"
  u_blendMode :: "BlendMode option option"

record StudioState =
  layers :: "PlacedLayer list"
  activeLayerId :: "string option"
  history :: "PlacedLayer list list"
  historyIndex :: nat

definition useStudioState :: "PlacedLayer list \<Rightarrow> StudioState" where
  "useStudioState initialLayers =
     \<lparr> layers = initialLayers, activeLayerId = None, history = [initialLayers], historyIndex = 0 \<rparr>"

definition commit :: "PlacedLayer list \<Rightarrow> ('a StudioState_scheme) \<Rightarrow> ('a StudioState_scheme)" where
  "commit newLayers s =
     (let nextHistory = take (historyIndex s + 1) (history s) @ [newLayers];
          nextHistory = (if length nextHistory > 20 then tl nextHistory else nextHistory)
      in s\<lparr> layers := newLayers, history := nextHistory, historyIndex := length nextHistory - 1 \<rparr>)"

text \<open>
  \<open>commitFrom r\<close> is the \<^verbatim>\<open>commit\<close> callback created by the render of the state \<open>r\<close>, called
  when the state stands at \<open>s\<close>: it builds the next history from the history and cursor of
  \<open>r\<close> and sets the three state variables to the values it built. Two calls from one
  render, and a call from a timer that kept the callback of an earlier render (the
  debounced commit of the wheel handler), are calls of \<open>commitFrom r\<close> on a state other
  than \<open>r\<close>.
\<close>

definition commitFrom ::
  "('b StudioState_scheme) \<Rightarrow> PlacedLayer list \<Rightarrow> ('a StudioState_scheme) \<Rightarrow> ('a StudioState_scheme)" where
  "commitFrom r newLayers s =
     (let nextHistory = take (historyIndex r + 1) (history r) @ [newLayers];
          nextHistory = (if length nextHistory > 20 then tl nextHistory else nextHistory)
      in s\<lparr> layers := newLayers, history := nextHistory, historyIndex := length nextHistory - 1 \<rparr>)"




text \<open>The object spread \<^verbatim>\<open>{ ...l, ...updates }\<close>.\<close>

definition applyUpdates :: "PlacedLayer \<Rightarrow> LayerUpdates \<Rightarrow> PlacedLayer" where
  "applyUpdates l u =
     \<lparr> uid = (case u_uid u of None \<Rightarrow> uid l | Some v \<Rightarrow> v),
       assetId = (case u_assetId u of None \<Rightarrow> assetId l | Some v \<Rightarrow> v),
       x = (case u_x u of None \<Rightarrow> x l | Some v \<Rightarrow> v),
       y = (case u_y u of None \<Rightarrow> y l | Some v \<Rightarrow> v),
       scale = (case u_scale u of None \<Rightarrow> scale l | Some v \<Rightarrow> v),
       rotation = (case u_rotation u of None \<Rightarrow> rotation l | Some v \<Rightarrow> v),
       blendMode = (case u_blendMode u of None \<Rightarrow> blendMode l | Some v \<Rightarrow> v) \<rparr>"

text \<open>\<^verbatim>\<open>addLayer\<close> takes the identifier that \<^verbatim>\<open>generateId()\<close> returned.\<close>

definition addLayer :: "string \<Rightarrow> string \<Rightarrow> ('a StudioState_scheme) \<Rightarrow> ('a StudioState_scheme)" where
  "addLayer newUid aid s =
     (let newLayer = \<lparr> uid = newUid, assetId = aid, x = 50, y = 50, scale = 1, rotation = 0,
                       blendMode = Some normal \<rparr>
      in (commit (layers s @ [newLayer]) s)\<lparr> activeLayerId := Some (uid newLayer) \<rparr>)"

definition updateLayer :: "string \<Rightarrow> LayerUpdates \<Rightarrow> ('a StudioState_scheme) \<Rightarrow> ('a StudioState_scheme)" where
  "updateLayer i updates s =
     s\<lparr> layers := map (\<lambda>l. if uid l = i then applyUpdates l updates else l) (layers s) \<rparr>"

definition commitUpdate :: "string \<Rightarrow> LayerUpdates \<Rightarrow> ('a StudioState_scheme) \<Rightarrow> ('a StudioState_scheme)" where
  "commitUpdate i updates s =
     commit (map (\<lambda>l. if uid l = i then applyUpdates l updates else l) (layers s)) s"

definition removeLayer :: "string \<Rightarrow> ('a StudioState_scheme) \<Rightarrow> ('a StudioState_scheme)" where
  "removeLayer i s =
     (let newLayers = filter (\<lambda>l. uid l \<noteq> i) (layers s);
          s' = commit newLayers s
      in if activeLayerId s = Some i then s'\<lparr> activeLayerId := None \<rparr> else s')"

datatype Direction = forward | backward

text \<open>\<^verbatim>\<open>layers.findIndex(l => l.uid === id)\<close>, \<open>None\<close> for -1.\<close>

definition findIndex :: "string \<Rightarrow> PlacedLayer list \<Rightarrow> nat option" where
  "findIndex i ls = (case filter (\<lambda>n. uid (ls ! n) = i) [0 ..< length ls] of
                       [] \<Rightarrow> None | n # _ \<Rightarrow> Some n)"

text \<open>
  \<^verbatim>\<open>newLayers[index] !== layers[index]\<close> compares object identities: the elements of the
  list are distinct objects, so the test succeeds exactly when one of the two swaps ran.
\<close>

definition reorderLayer :: "string \<Rightarrow> Direction \<Rightarrow> ('a StudioState_scheme) \<Rightarrow> ('a StudioState_scheme)" where
  "reorderLayer i direction s =
     (case findIndex i (layers s) of
        None \<Rightarrow> s
      | Some index \<Rightarrow>
          if direction = backward \<and> index > 0 then
            commit ((layers s)[index := layers s ! (index - 1), index - 1 := layers s ! index]) s
          else if direction = forward \<and> int index < int (length (layers s)) - 1 then
            commit ((layers s)[index := layers s ! (index + 1), index + 1 := layers s ! index]) s
          else s)"

definition clearCanvas :: "('a StudioState_scheme) \<Rightarrow> ('a StudioState_scheme)" where
  "clearCanvas s = (commit [] s)\<lparr> activeLayerId := None \<rparr>"

section \<open>The gesture interpreter (hooks/useCanvasGestures.ts)\<close>

datatype GestureType = drag | pinch

record GestureState =
  layerId :: string
  type :: GestureType
  startX :: real
  startY :: real
  startScale :: real
  startRot :: real
  initialLayerX :: real
  initialLayerY :: real
  initialDist :: real
  initialAngle :: real
  hasMoved :: bool

record Touch =
  clientX :: real
  clientY :: real

text \<open>
  A mouse event carries one position; a touch event carries its list of touches, which the
  browser never delivers empty to these handlers: the first touch and the others.
\<close>

datatype PointerEvent = MouseEvent real real | TouchEvent Touch "Touch list"

text \<open>
  The screen that mounts the hook: the studio state with the session in progress, the
  bounding box (width, height) of the canvas element when the reference is attached, and
  the flag that disables the canvas.
\<close>

record Screen = StudioState +
  gesture :: "GestureState option"
  canvasRect :: "(real \<times> real) option"
  isProcessing :: bool

text \<open>
  \<^verbatim>\<open>Math.atan2\<close> on real numbers, by quadrant (the signed zeros of the floating-point
  format are left out), and the remainder operator \<^verbatim>\<open>%\<close>, whose quotient is truncated
  towards zero, so that the result has the sign of the dividend.
\<close>

definition atan2 :: "real \<Rightarrow> real \<Rightarrow> real" where
  "atan2 dy dx =
     (if dx > 0 then arctan (dy / dx)
      else if dx < 0 \<and> dy \<ge> 0 then arctan (dy / dx) + pi
      else if dx < 0 then arctan (dy / dx) - pi
      else if dy > 0 then pi / 2
      else if dy < 0 then - (pi / 2)
      else 0)"

definition jsRem :: "real \<Rightarrow> real \<Rightarrow> real" where
  "jsRem a b = a - b * of_int (if a / b \<ge> 0 then \<lfloor>a / b\<rfloor> else \<lceil>a / b\<rceil>)"

definition getDist :: "Touch \<Rightarrow> Touch \<Rightarrow> real" where
  "getDist t1 t2 = sqrt ((clientX t1 - clientX t2)\<^sup>2 + (clientY t1 - clientY t2)\<^sup>2)"

definition getAngle :: "Touch \<Rightarrow> Touch \<Rightarrow> real" where
  "getAngle t1 t2 = atan2 (clientY t2 - clientY t1) (clientX t2 - clientX t1) * 180 / pi"

text \<open>The position read from an event: its first touch, or the mouse position.\<close>

fun eventX :: "PointerEvent \<Rightarrow> real" where
  "eventX (MouseEvent px py) = px"
| "eventX (TouchEvent t ts) = clientX t"

fun eventY :: "PointerEvent \<Rightarrow> real" where
  "eventY (MouseEvent px py) = py"
| "eventY (TouchEvent t ts) = clientY t"

text \<open>The test \<^verbatim>\<open>isTouch && e.touches.length === 2\<close>, with the two touches when it holds.\<close>

fun twoTouches :: "PointerEvent \<Rightarrow> (Touch \<times> Touch) option" where
  "twoTouches (TouchEvent t1 [t2]) = Some (t1, t2)"
| "twoTouches e = None"

definition handlePointerDown :: "PointerEvent \<Rightarrow> string \<Rightarrow> ('a Screen_scheme) \<Rightarrow> ('a Screen_scheme)" where
  "handlePointerDown e lid s0 =
     (if isProcessing s0 then s0
      else
        let s = s0\<lparr> activeLayerId := Some lid \<rparr> in
        case find (\<lambda>l. uid l = lid) (layers s) of
          None \<Rightarrow> s
        | Some layer \<Rightarrow>
            if canvasRect s = None then s
            else
              (case twoTouches e of
                 Some (t1, t2) \<Rightarrow>
                   s\<lparr> gesture := Some \<lparr> layerId = lid, type = pinch, startX = 0, startY = 0,
                        startScale = scale layer, startRot = rotation layer,
                        initialLayerX = 0, initialLayerY = 0,
                        initialDist = getDist t1 t2, initialAngle = getAngle t1 t2,
                        hasMoved = False \<rparr> \<rparr>
               | None \<Rightarrow>
                   s\<lparr> gesture := Some \<lparr> layerId = lid, type = drag,
                        startX = eventX e, startY = eventY e,
                        startScale = scale layer, startRot = rotation layer,
                        initialLayerX = x layer, initialLayerY = y layer,
                        initialDist = 0, initialAngle = 0, hasMoved = False \<rparr> \<rparr>))"

definition pinchLayers :: "GestureState \<Rightarrow> Touch \<Rightarrow> Touch \<Rightarrow> PlacedLayer list \<Rightarrow> PlacedLayer list" where
  "pinchLayers g t1 t2 ls =
     (let dist = getDist t1 t2;
          angle = getAngle t1 t2;
          scaleRatio = dist / initialDist g;
          angleDelta = angle - initialAngle g
      in map (\<lambda>l. if uid l = layerId g
                   then l\<lparr> scale := max 0.1 (min 5 (startScale g * scaleRatio)),
                           rotation := jsRem (startRot g + angleDelta) 360 \<rparr>
                   else l) ls)"

definition dragLayers :: "GestureState \<Rightarrow> real \<times> real \<Rightarrow> PointerEvent \<Rightarrow> PlacedLayer list \<Rightarrow> PlacedLayer list" where
  "dragLayers g rect e ls =
     (let deltaXPixels = eventX e - startX g;
          deltaYPixels = eventY e - startY g;
          deltaXPercent = (deltaXPixels / fst rect) * 100;
          deltaYPercent = (deltaYPixels / snd rect) * 100
      in map (\<lambda>l. if uid l = layerId g
                   then l\<lparr> x := max 0 (min 100 (initialLayerX g + deltaXPercent)),
                           y := max 0 (min 100 (initialLayerY g + deltaYPercent)) \<rparr>
                   else l) ls)"

definition handleMove :: "PointerEvent \<Rightarrow> ('a Screen_scheme) \<Rightarrow> ('a Screen_scheme)" where
  "handleMove e s =
     (case (gesture s, canvasRect s) of
        (Some g, Some rect) \<Rightarrow>
          if isProcessing s then s
          else
            let s1 = s\<lparr> gesture := Some (g\<lparr> hasMoved := True \<rparr>) \<rparr> in
            (case (type g, twoTouches e) of
               (pinch, Some (t1, t2)) \<Rightarrow> s1\<lparr> layers := pinchLayers g t1 t2 (layers s) \<rparr>
             | _ \<Rightarrow>
                 if type g = drag then s1\<lparr> layers := dragLayers g rect e (layers s) \<rparr>
                 else s1)
      | _ \<Rightarrow> s)"

text \<open>
  \<^verbatim>\<open>handleUp\<close> calls the \<^verbatim>\<open>commitHistory\<close> function the screen passed to the hook: the
  studio screen passes \<open>commit\<close>, the try-on screen a function that does nothing.
\<close>

definition handleUp ::
  "(PlacedLayer list \<Rightarrow> ('a Screen_scheme) \<Rightarrow> ('a Screen_scheme)) \<Rightarrow> ('a Screen_scheme) \<Rightarrow> ('a Screen_scheme)" where
  "handleUp commitHistory s =
     (case gesture s of
        None \<Rightarrow> s
      | Some g \<Rightarrow>
          (if hasMoved g then commitHistory (layers s) s else s)\<lparr> gesture := None \<rparr>)"

section \<open>The capture crop (TryOnScreen.handleCapture)\<close>

text \<open>
  The frame and viewport sizes are the pixel counts the browser reports; the crop is
  computed on real numbers. The width and height of a canvas element are integer
  attributes: the number assigned is truncated, and what the code reads back from
  \<^verbatim>\<open>canvas.width\<close> and \<^verbatim>\<open>canvas.height\<close> for the drawing is the truncated value.
\<close>

record Crop =
  sx :: real
  sy :: real
  sWidth :: real
  sHeight :: real
  cropScale :: real
  canvasWidth :: nat
  canvasHeight :: nat

definition MAX_DIM :: real where
  "MAX_DIM = 1280"

definition captureCrop :: "nat \<Rightarrow> nat \<Rightarrow> nat \<Rightarrow> nat \<Rightarrow> Crop" where
  "captureCrop vidW vidH screenW screenH =
     (let screenAspect = real screenW / real screenH;
          vidAspect = real vidW / real vidH;
          wider = (screenAspect > vidAspect);
          h = (if wider then real vidW / screenAspect else real vidH);
          top = (if wider then (real vidH - h) / 2 else 0);
          w = (if wider then real vidW else real vidH * screenAspect);
          left = (if wider then 0 else (real vidW - w) / 2);
          sc = min 1 (MAX_DIM / max w h)
      in \<lparr> sx = left, sy = top, sWidth = w, sHeight = h, cropScale = sc,
           canvasWidth = nat \<lfloor>w * sc\<rfloor>, canvasHeight = nat \<lfloor>h * sc\<rfloor> \<rparr>)"

section \<open>The resilient invoker (services/geminiService.ts)\<close>

text \<open>
  What the \<^verbatim>\<open>catch\<close> block reads of an error: its \<^verbatim>\<open>status\<close> property, when it has a
  numeric one, and \<^verbatim>\<open>String(error)\<close>. Text is ASCII; \<^verbatim>\<open>toLowerCase\<close> maps the letters
  A to Z and \<^verbatim>\<open>includes\<close> looks for a contiguous piece.
\<close>

record JsError =
  status :: "int option"
  asString :: string

definition lowerChar :: "char \<Rightarrow> char" where
  "lowerChar c = (let n = (of_char c :: nat) in if 65 \<le> n \<and> n \<le> 90 then char_of (n + 32) else c)"

definition toLowerCase :: "string \<Rightarrow> string" where
  "toLowerCase str = map lowerChar str"

definition includes_str :: "string \<Rightarrow> string \<Rightarrow> bool" where
  "includes_str str piece = sublist piece str"

definition isQuota :: "JsError \<Rightarrow> bool" where
  "isQuota error =
     (let msg = toLowerCase (asString error)
      in status error = Some 429 \<or> includes_str msg ''quota'' \<or> includes_str msg ''limit''
         \<or> includes_str msg ''429'' \<or> includes_str msg ''exhausted'')"

datatype CallError = NoKeys | Rethrown JsError | AllExhausted

datatype 'r Attempt = Returned 'r | Threw CallError | NextAttempt

text \<open>
  The body of the loop of \<^verbatim>\<open>callGeminiWithRetry\<close> and the loop, by the number of attempts
  that remain. The wrapped operation is a function of the attempt and the secret that
  tells whether the call resolves (\<open>Inr\<close>) or rejects (\<open>Inl\<close>); \<open>clock n\<close> gives the times at
  which attempt \<open>n\<close> selects and reports. The body returns how the attempt ends (the value
  returned, the error thrown, or on to the next attempt) and the pool as it leaves it.
\<close>

definition attemptOnce ::
  "(nat \<Rightarrow> int \<times> int) \<Rightarrow> (nat \<Rightarrow> string \<Rightarrow> JsError + 'r) \<Rightarrow> nat \<Rightarrow> bool \<Rightarrow> ApiKeyManager
   \<Rightarrow> 'r Attempt \<times> ApiKeyManager" where
  "attemptOnce clock operation attempt lastAttempt s =
     (case getKey (fst (clock attempt)) s of
        (None, s1) \<Rightarrow> (Threw NoKeys, s1)
      | (Some k, s1) \<Rightarrow>
          if k = [] then (Threw NoKeys, s1)
          else
            (case operation attempt k of
               Inr result \<Rightarrow> (Returned result, markSuccess k s1)
             | Inl error \<Rightarrow>
                 (if lastAttempt then Threw (Rethrown error) else NextAttempt,
                  markFailed k (isQuota error) (snd (clock attempt)) s1)))"

fun retryLoop ::
  "(nat \<Rightarrow> int \<times> int) \<Rightarrow> (nat \<Rightarrow> string \<Rightarrow> JsError + 'r) \<Rightarrow> nat \<Rightarrow> nat \<Rightarrow> ApiKeyManager
   \<Rightarrow> (CallError + 'r) \<times> ApiKeyManager" where
  "retryLoop clock operation attempt 0 s = (Inl AllExhausted, s)"
| "retryLoop clock operation attempt (Suc remaining) s =
     (case attemptOnce clock operation attempt (remaining = 0) s of
        (Returned result, s') \<Rightarrow> (Inr result, s')
      | (Threw e, s') \<Rightarrow> (Inl e, s')
      | (NextAttempt, s') \<Rightarrow> retryLoop clock operation (attempt + 1) remaining s')"

definition callGeminiWithRetry ::
  "(nat \<Rightarrow> int \<times> int) \<Rightarrow> (nat \<Rightarrow> string \<Rightarrow> JsError + 'r) \<Rightarrow> ApiKeyManager
   \<Rightarrow> (CallError + 'r) \<times> ApiKeyManager" where
  "callGeminiWithRetry clock operation s =
     retryLoop clock operation 0 (max 1 (getKeyCount s + 1)) s"

text \<open>
  The classification in words. Two characters are the same letter when they are equal or
  one is a capital A to Z and the other the small letter 32 codes above it; a text
  contains a marker up to letter case when some contiguous piece of it matches the marker
  letter by letter. The claimed classification is HTTP status 429 or one of the markers
  quota, limit, exhausted; the classification of the code adds the digits 429 anywhere in
  the text.
\<close>

definition capital :: "char \<Rightarrow> bool" where
  "capital c = (65 \<le> (of_char c :: nat) \<and> (of_char c :: nat) \<le> 90)"

definition sameLetter :: "char \<Rightarrow> char \<Rightarrow> bool" where
  "sameLetter c d =
     (c = d \<or> (capital c \<and> (of_char d :: nat) = of_char c + 32)
            \<or> (capital d \<and> (of_char c :: nat) = of_char d + 32))"

definition containsIgnoringCase :: "string \<Rightarrow> string \<Rightarrow> bool" where
  "containsIgnoringCase str marker = list_ex (\<lambda>piece. list_all2 sameLetter piece marker) (sublists str)"

definition hasQuotaMarker :: "JsError \<Rightarrow> bool" where
  "hasQuotaMarker error =
     list_ex (containsIgnoringCase (asString error)) [''quota'', ''limit'', ''exhausted'']"

definition quotaTypeAsClaimed :: "JsError \<Rightarrow> bool" where
  "quotaTypeAsClaimed error = (status error = Some 429 \<or> hasQuotaMarker error)"

definition quotaTypeSpec :: "JsError \<Rightarrow> bool" where
  "quotaTypeSpec error =
     (status error = Some 429 \<or> sublist ''429'' (asString error) \<or> hasQuotaMarker error)"

section \<open>Properties of the credential pool\<close>

subsection \<open>Looking a secret up\<close>

lemma findKey_None_iff: "findKey kid ks = None \<longleftrightarrow> kid \<notin> key ` set ks"
proof -
  have "findKey kid ks = None \<longleftrightarrow> filter (\<lambda>i. key (ks ! i) = kid) [0 ..< length ks] = []"
    by (simp add: findKey_def split: list.splits)
  also have "\<dots> \<longleftrightarrow> (\<forall>i < length ks. key (ks ! i) \<noteq> kid)"
    by (auto simp: filter_empty_conv)
  also have "\<dots> \<longleftrightarrow> kid \<notin> key ` set ks"
    by (force simp: in_set_conv_nth image_iff)
  finally show ?thesis .
qed

lemma findKey_Some: 
  assumes "findKey kid ks = Some i"
  shows "i < length ks \<and> key (ks ! i) = kid"
proof -
  from assms obtain rest where "filter (\<lambda>i. key (ks ! i) = kid) [0 ..< length ks] = i # rest"
    by (auto simp: findKey_def split: list.splits)
  then have "i \<in> set (filter (\<lambda>i. key (ks ! i) = kid) [0 ..< length ks])"
    by simp
  then show ?thesis by simp
qed

text \<open>
  Claim C10. For a secret that matches no credential of the pool, \<open>markSuccess\<close> and
  \<open>markFailed\<close> return (the model has no failing branch on this path, as the source has
  none) and leave the whole manager as it was: every credential record and the storage.
\<close>

theorem unknown_key_feedback_noop:
  assumes "kid \<notin> key ` set (keys s)"
  shows "markSuccess kid s = s \<and> markFailed kid q now s = s"
  using assms by (simp add: markSuccess_def markFailed_def findKey_None_iff[THEN iffD2])

theorem unknown_key_feedback_noop_witness:
  "markSuccess ''other'' (newApiKeyManager [''k1'', ''k2''] (Storage None))
     = newApiKeyManager [''k1'', ''k2''] (Storage None)
   \<and> markFailed ''other'' True 1000 (newApiKeyManager [''k1'', ''k2''] (Storage None))
     = newApiKeyManager [''k1'', ''k2''] (Storage None)"
  using unknown_key_feedback_noop [of "''other''" "newApiKeyManager [''k1'', ''k2''] (Storage None)" True 1000]
  by (simp add: newApiKeyManager_def loadState_def freshKey_def)

subsection \<open>Sorting, reloading and the paths of selection\<close>

lemma set_insertBy: "set (insertBy cmp a bs) = insert a (set bs)"
  by (induction bs) auto

lemma set_sortBy: "set (sortBy cmp as) = set as"
  by (induction as) (simp_all add: sortBy_def set_insertBy)

lemma sortBy_Nil_iff: "sortBy cmp as = [] \<longleftrightarrow> as = []"
  using set_sortBy[of cmp as] by (metis set_empty)

lemma hd_sortBy_mem: "as \<noteq> [] \<Longrightarrow> hd (sortBy cmp as) \<in> set as"
  using set_sortBy[of cmp as] sortBy_Nil_iff[of cmp as] by (metis hd_in_set)

lemma key_assign: "key (assign k p) = key k"
  by (simp add: assign_def)

lemma keys_saveState: "keys (saveState s) = keys s"
  by (simp add: saveState_def split: Storage.splits)

lemma map_key_loadState: "map key (keys (loadState s)) = map key (keys s)"
  by (simp add: loadState_def key_assign split: Storage.splits option.splits)

lemma key_isOnCooldown: "key (snd (isOnCooldown now k)) = key k"
  by (simp add: isOnCooldown_def split: option.splits)

lemma map_key_checkAll: "map key (checkAll now ks) = map key ks"
  by (simp add: checkAll_def key_isOnCooldown)

lemma length_checkAll: "length (checkAll now ks) = length ks"
  by (simp add: checkAll_def)

lemma map_key_update: 
  "i < length ks \<Longrightarrow> key k' = key (ks ! i) \<Longrightarrow> map key (ks[i := k']) = map key ks"
  by (simp add: map_update list_update_same_conv)

lemma passing_bound: "i \<in> set (passing now ks) \<Longrightarrow> i < length ks"
  by (simp add: passing_def)

lemma isOnCooldown_blocked_unchanged: "fst (isOnCooldown now k) \<Longrightarrow> snd (isOnCooldown now k) = k"
  by (auto simp: isOnCooldown_def split: option.splits if_splits)

lemma checkAll_none_passing: 
  assumes "passing now ks = []" shows "checkAll now ks = ks"
proof -
  have "\<forall>i < length ks. fst (isOnCooldown now (ks ! i))"
    using assms by (auto simp: passing_def filter_empty_conv)
  then have "\<forall>k \<in> set ks. snd (isOnCooldown now k) = k"
    by (auto simp: in_set_conv_nth isOnCooldown_blocked_unchanged)
  then show ?thesis by (simp add: checkAll_def map_idI)
qed

text \<open>The three paths of getKey.\<close>

lemma getKey_empty: "keys (loadState s) = [] \<Longrightarrow> getKey now s = (None, loadState s)"
  by (simp add: getKey_def)

lemma getKey_fallback:
  assumes "keys (loadState s) \<noteq> []" "passing now (keys (loadState s)) = []"
  shows "getKey now s =
           (let k = hd (sortBy byFailedAt (keys (loadState s)))
            in (if key k = [] then None else Some (key k), loadState s))"
proof -
  have c: "checkAll now (keys (loadState s)) = keys (loadState s)"
    using assms(2) by (rule checkAll_none_passing)
  have "sortBy byFailedAt (keys (loadState s)) \<noteq> []"
    using assms(1) by (simp add: sortBy_Nil_iff)
  then obtain k rest where "sortBy byFailedAt (keys (loadState s)) = k # rest"
    by (cases "sortBy byFailedAt (keys (loadState s))") auto
  then show ?thesis using assms by (simp add: getKey_def c Let_def)
qed

lemma getKey_selected:
  assumes "passing now (keys (loadState s)) \<noteq> []"
  defines "ks \<equiv> checkAll now (keys (loadState s))" and "i \<equiv> selectedIndex now s"
  shows "getKey now s =
           (Some (key (ks ! i)), saveState ((loadState s)\<lparr> keys := ks[i := (ks ! i)\<lparr> lastUsed := now \<rparr>] \<rparr>))"
    and "i \<in> set (passing now (keys (loadState s)))"
proof -
  have ne: "keys (loadState s) \<noteq> []" using assms(1) by (auto simp: passing_def)
  show mem: "i \<in> set (passing now (keys (loadState s)))"
    unfolding i_def selectedIndex_def using assms(1) by (rule hd_sortBy_mem)
  then have "i < length ks" by (simp add: ks_def length_checkAll passing_bound)
  then show "getKey now s =
           (Some (key (ks ! i)), saveState ((loadState s)\<lparr> keys := ks[i := (ks ! i)\<lparr> lastUsed := now \<rparr>] \<rparr>))"
    using assms(1) ne by (simp add: getKey_def Let_def ks_def i_def selectedIndex_def)
qed

lemma map_key_getKey: "map key (keys (snd (getKey now s))) = map key (keys s)"
proof (cases "keys (loadState s) = []")
  case True
  then have "getKey now s = (None, loadState s)" by (rule getKey_empty)
  then show ?thesis by (simp only: snd_conv map_key_loadState)
next
  case False
  show ?thesis
  proof (cases "passing now (keys (loadState s)) = []")
    case True
    with False show ?thesis by (simp add: getKey_fallback Let_def map_key_loadState)
  next
    case False
    note sel = getKey_selected[OF False]
    have "selectedIndex now s < length (checkAll now (keys (loadState s)))"
      using sel(2) by (simp add: length_checkAll passing_bound)
    then show ?thesis
      by (simp add: sel(1) keys_saveState map_key_update map_key_checkAll map_key_loadState)
  qed
qed

lemma getKey_returns_member:
  assumes "fst (getKey now s) = Some r"
  shows "r \<in> set (map key (keys s))"
proof (cases "keys (loadState s) = []")
  case True
  then show ?thesis using assms by (simp add: getKey_empty)
next
  case ne: False
  show ?thesis
  proof (cases "passing now (keys (loadState s)) = []")
    case True
    have "hd (sortBy byFailedAt (keys (loadState s))) \<in> set (keys (loadState s))"
      using ne by (rule hd_sortBy_mem)
    then have "key (hd (sortBy byFailedAt (keys (loadState s)))) \<in> set (map key (keys (loadState s)))"
      by simp
    moreover have "r = key (hd (sortBy byFailedAt (keys (loadState s))))"
      using assms ne True by (simp add: getKey_fallback Let_def split: if_splits)
    ultimately show ?thesis by (simp only: map_key_loadState)
  next
    case False
    note sel = getKey_selected[OF False]
    have "selectedIndex now s < length (checkAll now (keys (loadState s)))"
      using sel(2) by (simp add: length_checkAll passing_bound)
    then have "key (checkAll now (keys (loadState s)) ! selectedIndex now s) \<in> set (map key (checkAll now (keys (loadState s))))"
      by (metis length_map nth_map nth_mem)
    then show ?thesis using assms by (simp add: sel(1) map_key_checkAll map_key_loadState)
  qed
qed

lemma getKey_None_iff:
  assumes "wellFormed s"
  shows "fst (getKey now s) = None \<longleftrightarrow> keys s = []"
proof (cases "keys (loadState s) = []")
  case True
  moreover have "keys s = []" using True map_key_loadState[of s] by (metis map_is_Nil_conv)
  ultimately show ?thesis by (simp add: getKey_empty)
next
  case ne: False
  then have ne': "keys s \<noteq> []" using map_key_loadState[of s] by (metis map_is_Nil_conv)
  show ?thesis
  proof (cases "passing now (keys (loadState s)) = []")
    case True
    have "hd (sortBy byFailedAt (keys (loadState s))) \<in> set (keys (loadState s))"
      using ne by (rule hd_sortBy_mem)
    then have "key (hd (sortBy byFailedAt (keys (loadState s)))) \<in> set (map key (keys (loadState s)))"
      by simp
    then have "key (hd (sortBy byFailedAt (keys (loadState s)))) \<noteq> []"
      using assms by (auto simp: wellFormed_def map_key_loadState)
    then show ?thesis using ne ne' True by (simp add: getKey_fallback Let_def)
  next
    case False
    then show ?thesis using ne' by (simp add: getKey_selected(1))
  qed
qed


subsection \<open>What is saved is what a reload finds\<close>

lemma snapshot_snoc: "snapshot (ks @ [a]) = (snapshot ks)(key a \<mapsto> persisted a)"
  by (simp add: snapshot_def)

lemma snapshot_lookup:
  "distinct (map key ks) \<Longrightarrow> k \<in> set ks \<Longrightarrow> snapshot ks (key k) = Some (persisted k)"
proof (induction ks rule: rev_induct)
  case Nil
  then show ?case by simp
next
  case (snoc a ks)
  show ?case
  proof (cases "k = a")
    case True
    then show ?thesis by (simp add: snapshot_snoc)
  next
    case False
    with snoc.prems have "k \<in> set ks" "key k \<noteq> key a" by (auto simp: image_iff)
    with snoc show ?thesis by (simp add: snapshot_snoc)
  qed
qed

lemma assign_persisted: "assign k (persisted k) = k"
  by (simp add: assign_def persisted_def)

lemma loadState_saveState:
  assumes "distinct (map key (keys s))"
  shows "loadState (saveState s) = saveState s"
proof (cases "storage s")
  case NoStorage
  then show ?thesis by (simp add: saveState_def loadState_def)
next
  case (Storage d)
  have "map (\<lambda>k. case snapshot (keys s) (key k) of None \<Rightarrow> k | Some p \<Rightarrow> assign k p) (keys s) = keys s"
    using assms by (intro map_idI) (simp add: snapshot_lookup assign_persisted)
  then show ?thesis using Storage by (simp add: saveState_def loadState_def)
qed

subsection \<open>Secrets and positions\<close>

lemma findKey_cong: "map key ks = map key ks' \<Longrightarrow> findKey kid ks = findKey kid ks'"
proof -
  assume eq: "map key ks = map key ks'"
  then have len: "length ks = length ks'" by (metis length_map)
  have "\<And>i. i < length ks \<Longrightarrow> key (ks ! i) = key (ks' ! i)"
    using eq len by (metis nth_map)
  then have "filter (\<lambda>i. key (ks ! i) = kid) [0 ..< length ks] = filter (\<lambda>i. key (ks' ! i) = kid) [0 ..< length ks]"
    by (intro filter_cong) auto
  then show ?thesis by (simp add: findKey_def len)
qed

lemma findKey_distinct:
  assumes "distinct (map key ks)" "i < length ks"
  shows "findKey (key (ks ! i)) ks = Some i"
proof -
  obtain j where j: "findKey (key (ks ! i)) ks = Some j"
    using assms(2) findKey_None_iff[of "key (ks ! i)" ks] by (cases "findKey (key (ks ! i)) ks") auto
  then have "j < length ks" "key (ks ! j) = key (ks ! i)" using findKey_Some by auto
  then have "j = i" using assms by (metis distinct_conv_nth length_map nth_map)
  with j show ?thesis by simp
qed

lemma findKey_member:
  assumes "kid \<in> set (map key ks)" obtains i where "findKey kid ks = Some i"
  using assms findKey_None_iff[of kid ks] by (cases "findKey kid ks") auto

lemma eligible_iff:
  assumes "distinct (map key (keys s))" "loadState s = s" "findKey kid (keys s) = Some i"
  shows "eligible now kid s \<longleftrightarrow> \<not> fst (isOnCooldown now (keys s ! i))"
proof -
  have i: "i < length (keys s)" "key (keys s ! i) = kid" using findKey_Some[OF assms(3)] by auto
  have "eligible now kid s \<longleftrightarrow> (\<exists>j < length (keys s). \<not> fst (isOnCooldown now (keys s ! j)) \<and> key (keys s ! j) = kid)"
    by (auto simp: eligible_def assms(2) Let_def list_ex_iff passing_def)
  also have "\<dots> \<longleftrightarrow> \<not> fst (isOnCooldown now (keys s ! i))"
  proof
    assume "\<exists>j < length (keys s). \<not> fst (isOnCooldown now (keys s ! j)) \<and> key (keys s ! j) = kid"
    then obtain j where j: "j < length (keys s)" "\<not> fst (isOnCooldown now (keys s ! j))" "key (keys s ! j) = kid"
      by blast
    then have "j = i" using i assms(1) by (metis distinct_conv_nth length_map nth_map)
    with j show "\<not> fst (isOnCooldown now (keys s ! i))" by simp
  next
    assume "\<not> fst (isOnCooldown now (keys s ! i))"
    with i show "\<exists>j < length (keys s). \<not> fst (isOnCooldown now (keys s ! j)) \<and> key (keys s ! j) = kid"
      by blast
  qed
  finally show ?thesis .
qed

lemma eligible_passing: "eligible now kid s \<Longrightarrow> passing now (keys (loadState s)) \<noteq> []"
  by (auto simp: eligible_def Let_def list_ex_iff)

subsection \<open>Feedback on a configured secret\<close>

lemma markFailed_found:
  assumes "findKey kid (keys s) = Some i"
  shows "markFailed kid q now s = saveState (s\<lparr> keys := (keys s)[i := failedRecord q now (keys s ! i)] \<rparr>)"
  using assms by (simp add: markFailed_def)


lemma markSuccess_found:
  assumes "findKey kid (keys s) = Some i"
  shows "markSuccess kid s = saveState (s\<lparr> keys := (keys s)[i := succeededRecord (keys s ! i)] \<rparr>)"
  using assms by (simp add: markSuccess_def)

lemma key_failedRecord: "key (failedRecord q now k) = key k"
  by (simp add: failedRecord_def Let_def)

lemma key_succeededRecord: "key (succeededRecord k) = key k"
  by (simp add: succeededRecord_def)

lemma map_key_markFailed: "map key (keys (markFailed kid q now s)) = map key (keys s)"
proof (cases "findKey kid (keys s)")
  case None
  then show ?thesis by (simp add: markFailed_def)
next
  case (Some i)
  then have "i < length (keys s)" using findKey_Some by blast
  then show ?thesis
    by (simp add: markFailed_found[OF Some] keys_saveState map_key_update key_failedRecord)
qed

lemma map_key_markSuccess: "map key (keys (markSuccess kid s)) = map key (keys s)"
proof (cases "findKey kid (keys s)")
  case None
  then show ?thesis by (simp add: markSuccess_def)
next
  case (Some i)
  then have "i < length (keys s)" using findKey_Some by blast
  then show ?thesis
    by (simp add: markSuccess_found[OF Some] keys_saveState map_key_update key_succeededRecord)
qed

lemma map_key_getPoolStatus: "map key (keys (snd (getPoolStatus now s))) = map key (keys s)"
  by (simp add: getPoolStatus_def map_key_checkAll)

lemma set_uniqueInOrder: "set (uniqueInOrder seen as) = set as - set seen"
  by (induction seen as rule: uniqueInOrder.induct) auto

lemma distinct_uniqueInOrder: "distinct (uniqueInOrder seen as)"
  by (induction seen as rule: uniqueInOrder.induct) (auto simp: set_uniqueInOrder)

lemma map_key_new:
  "map key (keys (newApiKeyManager initialKeys st)) = filter (\<lambda>k. k \<noteq> []) (uniqueInOrder [] initialKeys)"
  by (simp add: newApiKeyManager_def Let_def map_key_loadState freshKey_def comp_def)

text \<open>Every pool is well formed.\<close>

lemma wellFormed_new: "wellFormed (newApiKeyManager initialKeys st)"
  by (simp add: wellFormed_def map_key_new distinct_uniqueInOrder)

lemma wellFormed_cong: "map key (keys s') = map key (keys s) \<Longrightarrow> wellFormed s' = wellFormed s"
  by (simp add: wellFormed_def)

lemma wellFormed_preserved:
  "wellFormed (snd (getKey now s)) = wellFormed s"
  "wellFormed (markSuccess kid s) = wellFormed s"
  "wellFormed (markFailed kid q now s) = wellFormed s"
  "wellFormed (snd (getPoolStatus now s)) = wellFormed s"
  "wellFormed (loadState s) = wellFormed s"
  "wellFormed (s\<lparr> storage := st \<rparr>) = wellFormed s"
  by (simp_all add: wellFormed_def map_key_getKey map_key_markSuccess map_key_markFailed
      map_key_getPoolStatus map_key_loadState)


lemma lookupKey_found: "findKey kid (keys s) = Some i \<Longrightarrow> lookupKey kid s = Some (keys s ! i)"
  by (simp add: lookupKey_def)

lemma markFailed_effect:
  assumes "wellFormed s" "findKey kid (keys s) = Some i"
  shows "keys (markFailed kid q t s) = (keys s)[i := failedRecord q t (keys s ! i)]"
    and "findKey kid (keys (markFailed kid q t s)) = Some i"
    and "lookupKey kid (markFailed kid q t s) = Some (failedRecord q t (keys s ! i))"
    and "loadState (markFailed kid q t s) = markFailed kid q t s"
proof -
  have i: "i < length (keys s)" using findKey_Some[OF assms(2)] by simp
  show k: "keys (markFailed kid q t s) = (keys s)[i := failedRecord q t (keys s ! i)]"
    by (simp add: markFailed_found[OF assms(2)] keys_saveState)
  show f: "findKey kid (keys (markFailed kid q t s)) = Some i"
    using findKey_cong[OF map_key_markFailed, of kid kid q t s] assms(2) by simp
  show "lookupKey kid (markFailed kid q t s) = Some (failedRecord q t (keys s ! i))"
    using i by (simp add: lookupKey_found[OF f] k)
  have "distinct (map key (keys (s\<lparr> keys := (keys s)[i := failedRecord q t (keys s ! i)] \<rparr>)))"
    using assms(1) i by (simp add: wellFormed_def map_key_update key_failedRecord)
  then show "loadState (markFailed kid q t s) = markFailed kid q t s"
    unfolding markFailed_found[OF assms(2)] by (rule loadState_saveState)
qed

lemma markSuccess_effect:
  assumes "wellFormed s" "findKey kid (keys s) = Some i"
  shows "keys (markSuccess kid s) = (keys s)[i := succeededRecord (keys s ! i)]"
    and "findKey kid (keys (markSuccess kid s)) = Some i"
    and "lookupKey kid (markSuccess kid s) = Some (succeededRecord (keys s ! i))"
    and "loadState (markSuccess kid s) = markSuccess kid s"
proof -
  have i: "i < length (keys s)" using findKey_Some[OF assms(2)] by simp
  show k: "keys (markSuccess kid s) = (keys s)[i := succeededRecord (keys s ! i)]"
    by (simp add: markSuccess_found[OF assms(2)] keys_saveState)
  show f: "findKey kid (keys (markSuccess kid s)) = Some i"
    using findKey_cong[OF map_key_markSuccess, of kid kid s] assms(2) by simp
  show "lookupKey kid (markSuccess kid s) = Some (succeededRecord (keys s ! i))"
    using i by (simp add: lookupKey_found[OF f] k)
  have "distinct (map key (keys (s\<lparr> keys := (keys s)[i := succeededRecord (keys s ! i)] \<rparr>)))"
    using assms(1) i by (simp add: wellFormed_def map_key_update key_succeededRecord)
  then show "loadState (markSuccess kid s) = markSuccess kid s"
    unfolding markSuccess_found[OF assms(2)] by (rule loadState_saveState)
qed

lemma success_restores_eligibility:
  assumes "wellFormed s" "kid \<in> set (map key (keys s))"
  shows "map_option circuitState (lookupKey kid (markSuccess kid s)) = Some CLOSED"
    and "eligible now kid (markSuccess kid s)"
proof -
  obtain i where f: "findKey kid (keys s) = Some i" using assms(2) by (rule findKey_member)
  have i: "i < length (keys s)" using findKey_Some[OF f] by simp
  note eff = markSuccess_effect[OF assms(1) f]
  show "map_option circuitState (lookupKey kid (markSuccess kid s)) = Some CLOSED"
    by (simp add: eff(3) succeededRecord_def)
  have d: "distinct (map key (keys (markSuccess kid s)))"
    using assms(1) by (simp add: map_key_markSuccess wellFormed_def)
  have "\<not> fst (isOnCooldown now (succeededRecord (keys s ! i)))"
    by (simp add: isOnCooldown_def succeededRecord_def)
  then show "eligible now kid (markSuccess kid s)"
    using eligible_iff[OF d eff(4) eff(2), of now] i by (simp add: eff(1))
qed

lemma failedRecord_quota:
  "circuitState (failedRecord True t k) = OPEN"
  "halfOpenTestTime (failedRecord True t k) =
     Some (t + (if circuitState k = HALF_OPEN then HALF_OPEN_TEST_DELAY else COOLDOWN_QUOTA))"
  by (simp_all add: failedRecord_def Let_def)

lemma isOnCooldown_open:
  assumes "circuitState k = OPEN" "halfOpenTestTime k = Some d" "0 < d"
  shows "isOnCooldown now k = (if d \<le> now then (False, k\<lparr> circuitState := HALF_OPEN \<rparr>) else (True, k))"
  using assms by (simp add: isOnCooldown_def)

lemma getKey_selected_record:
  assumes "passing now (keys (loadState s)) \<noteq> []" "i < length (keys s)"
  shows "keys (snd (getKey now s)) ! i =
           (if i = selectedIndex now s
            then (snd (isOnCooldown now (keys (loadState s) ! i)))\<lparr> lastUsed := now \<rparr>
            else snd (isOnCooldown now (keys (loadState s) ! i)))"
proof -
  have len: "length (keys (loadState s)) = length (keys s)"
    using map_key_loadState[of s] by (metis length_map)
  note sel = getKey_selected[OF assms(1)]
  have "keys (snd (getKey now s)) =
          (checkAll now (keys (loadState s)))[selectedIndex now s :=
             (checkAll now (keys (loadState s)) ! selectedIndex now s)\<lparr> lastUsed := now \<rparr>]"
    by (simp add: sel(1) keys_saveState)
  moreover have "checkAll now (keys (loadState s)) ! j = snd (isOnCooldown now (keys (loadState s) ! j))"
    if "j < length (keys s)" for j
    using that len by (simp add: checkAll_def)
  ultimately show ?thesis using assms(2) len by (auto simp: length_checkAll nth_list_update)
qed


lemmas pool_eval =
  newApiKeyManager_def loadState_def saveState_def snapshot_def freshKey_def persisted_def
  assign_def markFailed_def markSuccess_def failedRecord_def succeededRecord_def findKey_def lookupKey_def eligible_def passing_def
  checkAll_def isOnCooldown_def getKey_def sortBy_def byFailedAt_def byHealth_def wellFormed_def
  MAX_CONSECUTIVE_FAILURES_def COOLDOWN_TRANSIENT_def COOLDOWN_QUOTA_def HALF_OPEN_TEST_DELAY_def
  Let_def

text \<open>
  Claim C1, as the code has it. In a well-formed pool, after \<open>markFailed kid True\<close> at time
  \<open>t\<close> the credential is OPEN and its recorded retry deadline is \<open>t\<close> plus the quota
  cooldown of 5 minutes (plus the half-open delay of 1 minute when the failure was that of
  a HALF_OPEN trial). At every time before the deadline it is not among the candidates of
  \<open>getKey\<close>; at a time at or after the deadline it is, and \<open>getKey\<close> leaves it HALF_OPEN;
  a \<open>markSuccess\<close> after that returns it to CLOSED and makes it a candidate at any time.
\<close>

theorem quota_failure_cooldown:
  assumes "wellFormed s" and "kid \<in> set (map key (keys s))" and "0 \<le> t"
  defines "s1 \<equiv> markFailed kid True t s"
      and "deadline \<equiv> t + (if map_option circuitState (lookupKey kid s) = Some HALF_OPEN
                             then HALF_OPEN_TEST_DELAY else COOLDOWN_QUOTA)"
  shows "map_option circuitState (lookupKey kid s1) = Some OPEN
       \<and> map_option halfOpenTestTime (lookupKey kid s1) = Some (Some deadline)
       \<and> (now < deadline \<longrightarrow> \<not> eligible now kid s1)
       \<and> (deadline \<le> now \<longrightarrow>
            eligible now kid s1
            \<and> map_option circuitState (lookupKey kid (snd (getKey now s1))) = Some HALF_OPEN)
       \<and> map_option circuitState (lookupKey kid (markSuccess kid (snd (getKey now s1)))) = Some CLOSED
       \<and> eligible later kid (markSuccess kid (snd (getKey now s1)))"
proof -
  obtain i where f: "findKey kid (keys s) = Some i" using assms(2) by (rule findKey_member)
  have i: "i < length (keys s)" using findKey_Some[OF f] by simp
  define k' where "k' = failedRecord True t (keys s ! i)"
  note eff = markFailed_effect[OF assms(1) f, of True t, folded s1_def k'_def]
  have dl: "deadline = t + (if circuitState (keys s ! i) = HALF_OPEN then HALF_OPEN_TEST_DELAY else COOLDOWN_QUOTA)"
    by (simp add: deadline_def lookupKey_found[OF f])
  have dpos: "0 < deadline"
    using assms(3) by (simp add: dl HALF_OPEN_TEST_DELAY_def COOLDOWN_QUOTA_def)
  have st: "circuitState k' = OPEN" and h: "halfOpenTestTime k' = Some deadline"
    by (simp_all add: k'_def failedRecord_quota dl)
  have a: "map_option circuitState (lookupKey kid s1) = Some OPEN"
    by (simp add: eff(3) st)
  have b: "map_option halfOpenTestTime (lookupKey kid s1) = Some (Some deadline)"
    by (simp add: eff(3) h)
  have wf1: "wellFormed s1" using assms(1) by (simp add: s1_def wellFormed_preserved)
  then have d1: "distinct (map key (keys s1))" by (simp add: wellFormed_def)
  have rec: "keys s1 ! i = k'" using i by (simp add: eff(1))
  have el: "eligible now kid s1 \<longleftrightarrow> deadline \<le> now"
    using eligible_iff[OF d1 eff(4) eff(2), of now] by (simp add: rec isOnCooldown_open[OF st h dpos])
  have c: "now < deadline \<longrightarrow> \<not> eligible now kid s1" using el by simp
  have d: "deadline \<le> now \<longrightarrow>
            eligible now kid s1
            \<and> map_option circuitState (lookupKey kid (snd (getKey now s1))) = Some HALF_OPEN"
  proof
    assume late: "deadline \<le> now"
    then have e: "eligible now kid s1" using el by simp
    then have p: "passing now (keys (loadState s1)) \<noteq> []" by (rule eligible_passing)
    have i1: "i < length (keys s1)" using i by (simp add: eff(1))
    have f2: "findKey kid (keys (snd (getKey now s1))) = Some i"
      using findKey_cong[OF map_key_getKey, of kid now s1] eff(2) by simp
    have r: "snd (isOnCooldown now (keys (loadState s1) ! i)) = k'\<lparr> circuitState := HALF_OPEN \<rparr>"
      using late by (simp add: eff(4) rec isOnCooldown_open[OF st h dpos])
    have "circuitState (keys (snd (getKey now s1)) ! i) = HALF_OPEN"
      unfolding getKey_selected_record[OF p i1] r by simp
    then show "eligible now kid s1
            \<and> map_option circuitState (lookupKey kid (snd (getKey now s1))) = Some HALF_OPEN"
      using e by (simp add: lookupKey_found[OF f2])
  qed
  have wf2: "wellFormed (snd (getKey now s1))" using wf1 by (simp add: wellFormed_preserved)
  have mem2: "kid \<in> set (map key (keys (snd (getKey now s1))))"
    using assms(2) by (simp only: map_key_getKey s1_def map_key_markFailed)
  note succ = success_restores_eligibility[OF wf2 mem2]
  from a b c d succ(1) succ(2)[of later] show ?thesis by blast
qed


theorem quota_failure_cooldown_witness:
  "\<not> eligible 2000 ''k1'' (markFailed ''k1'' True 1000 (newApiKeyManager [''k1'', ''k2''] (Storage None)))
   \<and> eligible 301000 ''k1'' (markFailed ''k1'' True 1000 (newApiKeyManager [''k1'', ''k2''] (Storage None)))
   \<and> map_option halfOpenTestTime
        (lookupKey ''k1'' (markFailed ''k1'' True 1000 (newApiKeyManager [''k1'', ''k2''] (Storage None))))
      = Some (Some 301000)"
  using quota_failure_cooldown [of "newApiKeyManager [''k1'', ''k2''] (Storage None)" "''k1''" 1000 2000 0]
        quota_failure_cooldown [of "newApiKeyManager [''k1'', ''k2''] (Storage None)" "''k1''" 1000 301000 0]
  by (simp add: newApiKeyManager_def loadState_def freshKey_def wellFormed_def lookupKey_def findKey_def
      COOLDOWN_QUOTA_def HALF_OPEN_TEST_DELAY_def)

text \<open>
  Claim C1 as stated fails: nothing limits a HALF_OPEN credential to one pass. In a pool of
  one credential that failed on quota at time 1000, the selection at the deadline 301000
  lets it through as a candidate, and with no success reported it is a candidate again at
  301001 and, after a second selection, at 999999, still HALF_OPEN.
\<close>

theorem half_open_passes_again_without_success:
  "eligible 301000 ''k'' (markFailed ''k'' True 1000 (newApiKeyManager [''k''] (Storage None)))
   \<and> fst (getKey 301000 (markFailed ''k'' True 1000 (newApiKeyManager [''k''] (Storage None)))) = Some ''k''
   \<and> eligible 301001 ''k''
        (snd (getKey 301000 (markFailed ''k'' True 1000 (newApiKeyManager [''k''] (Storage None)))))
   \<and> eligible 999999 ''k''
        (snd (getKey 301001
          (snd (getKey 301000 (markFailed ''k'' True 1000 (newApiKeyManager [''k''] (Storage None)))))))
   \<and> map_option circuitState (lookupKey ''k''
        (snd (getKey 301001
          (snd (getKey 301000 (markFailed ''k'' True 1000 (newApiKeyManager [''k''] (Storage None))))))))
      = Some HALF_OPEN"
  by (simp add: pool_eval)

text \<open>
  Claim C2. In a well-formed pool \<open>getKey\<close> returns null exactly when the pool has no
  credential; and in the pool built from the single secret \<open>k\<close>, after
  \<open>markFailed k True\<close> a selection at any time returns \<open>k\<close>.
\<close>

theorem getKey_null_iff_empty_pool:
  assumes "wellFormed s" and "k \<noteq> []"
  shows "(fst (getKey now s) = None \<longleftrightarrow> keys s = [])
       \<and> fst (getKey later (markFailed k True t (newApiKeyManager [k] st))) = Some k"
proof -
  let ?s1 = "markFailed k True t (newApiKeyManager [k] st)"
  have mk: "map key (keys ?s1) = [k]"
    using assms(2) by (simp add: map_key_markFailed map_key_new)
  have wf: "wellFormed ?s1"
    by (simp add: wellFormed_preserved wellFormed_new)
  have "keys ?s1 \<noteq> []" using mk by auto
  then have "fst (getKey later ?s1) \<noteq> None" using getKey_None_iff[OF wf] by simp
  then obtain r where r: "fst (getKey later ?s1) = Some r" by auto
  then have "r \<in> set (map key (keys ?s1))" by (rule getKey_returns_member)
  with r mk have "fst (getKey later ?s1) = Some k" by simp
  with getKey_None_iff[OF assms(1), of now] show ?thesis by simp
qed

theorem getKey_null_iff_empty_pool_witness:
  "fst (getKey 5 (newApiKeyManager [] (Storage None))) = None
   \<and> fst (getKey 5 (newApiKeyManager [''k1'', ''k2''] (Storage None))) \<noteq> None
   \<and> fst (getKey 1000 (markFailed ''k'' True 1000 (newApiKeyManager [''k''] (Storage None)))) = Some ''k''"
  using getKey_null_iff_empty_pool [of "newApiKeyManager [] (Storage None)" "''k''" 5 1000 1000 "Storage None"]
        getKey_null_iff_empty_pool [of "newApiKeyManager [''k1'', ''k2''] (Storage None)" "''k''" 5 1000 1000 "Storage None"]
  by (simp add: newApiKeyManager_def loadState_def freshKey_def wellFormed_def)

text \<open>
  Claim C4, as the code has it. In a well-formed pool, when some credential is among the
  candidates, \<open>getKey\<close> returns a secret whose record has \<open>lastUsed\<close> equal to the current
  time on return, and when the manager has a storage the slot holds the snapshot of the
  records as they are on return.
\<close>

theorem getKey_stamps_and_persists:
  assumes "wellFormed s" and "eligible now kid s"
  shows "(case fst (getKey now s) of
            None \<Rightarrow> False
          | Some r \<Rightarrow> map_option lastUsed (lookupKey r (snd (getKey now s))) = Some now)
       \<and> (storage s \<noteq> NoStorage \<longrightarrow>
            storage (snd (getKey now s)) = Storage (Some (snapshot (keys (snd (getKey now s))))))"
proof -
  have p: "passing now (keys (loadState s)) \<noteq> []" using assms(2) by (rule eligible_passing)
  note sel = getKey_selected[OF p]
  define j where "j = selectedIndex now s"
  have len: "length (keys (loadState s)) = length (keys s)"
    using map_key_loadState[of s] by (metis length_map)
  have j: "j < length (keys s)" using passing_bound[OF sel(2)] len by (simp add: j_def)
  have j2: "j < length (keys (snd (getKey now s)))"
    using j map_key_getKey[of now s] by (metis length_map)
  have r: "fst (getKey now s) = Some (key (keys (snd (getKey now s)) ! j))"
  proof -
    have "key (keys (snd (getKey now s)) ! j) = key (keys s ! j)"
      using map_key_getKey[of now s] j j2 by (metis nth_map)
    moreover have "key (checkAll now (keys (loadState s)) ! j) = key (keys s ! j)"
      using map_key_checkAll[of now "keys (loadState s)"] map_key_loadState[of s] j len
      by (metis length_checkAll nth_map)
    ultimately show ?thesis by (simp add: sel(1) j_def)
  qed
  have "distinct (map key (keys (snd (getKey now s))))"
    using assms(1) by (simp add: map_key_getKey wellFormed_def)
  then have "findKey (key (keys (snd (getKey now s)) ! j)) (keys (snd (getKey now s))) = Some j"
    using j2 by (rule findKey_distinct)
  then have "lookupKey (key (keys (snd (getKey now s)) ! j)) (snd (getKey now s)) = Some (keys (snd (getKey now s)) ! j)"
    by (rule lookupKey_found)
  moreover have "lastUsed (keys (snd (getKey now s)) ! j) = now"
    unfolding getKey_selected_record[OF p j] by (simp add: j_def)
  ultimately have a: "(case fst (getKey now s) of
            None \<Rightarrow> False
          | Some r \<Rightarrow> map_option lastUsed (lookupKey r (snd (getKey now s))) = Some now)"
    by (simp add: r)
  have st: "storage (loadState s) = storage s"
    by (simp add: loadState_def split: Storage.splits option.splits)
  have b: "storage s \<noteq> NoStorage \<longrightarrow>
            storage (snd (getKey now s)) = Storage (Some (snapshot (keys (snd (getKey now s)))))"
    using st by (simp add: sel(1) saveState_def split: Storage.splits)
  from a b show ?thesis by blast
qed

theorem getKey_stamps_and_persists_witness:
  "fst (getKey 7000 (newApiKeyManager [''k1'', ''k2''] (Storage None))) = Some ''k1''
   \<and> map_option lastUsed (lookupKey ''k1'' (snd (getKey 7000 (newApiKeyManager [''k1'', ''k2''] (Storage None)))))
       = Some 7000
   \<and> storage (snd (getKey 7000 (newApiKeyManager [''k1'', ''k2''] (Storage None))))
       = Storage (Some (snapshot (keys (snd (getKey 7000 (newApiKeyManager [''k1'', ''k2''] (Storage None)))))))"
  using getKey_stamps_and_persists [of "newApiKeyManager [''k1'', ''k2''] (Storage None)" 7000 "''k1''"]
  by (simp add: pool_eval)

text \<open>
  Claim C4 as stated fails on the fallback: with its only credential cooling down the pool
  still returns it, with \<open>lastUsed\<close> left at 0 at time 2000 and the manager, storage
  included, exactly as it was; and a manager without storage persists nothing.
\<close>

theorem fallback_neither_stamps_nor_saves:
  "fst (getKey 2000 (markFailed ''k'' True 1000 (newApiKeyManager [''k''] (Storage None)))) = Some ''k''
   \<and> map_option lastUsed
        (lookupKey ''k'' (snd (getKey 2000 (markFailed ''k'' True 1000 (newApiKeyManager [''k''] (Storage None))))))
      = Some 0
   \<and> snd (getKey 2000 (markFailed ''k'' True 1000 (newApiKeyManager [''k''] (Storage None))))
      = markFailed ''k'' True 1000 (newApiKeyManager [''k''] (Storage None))
   \<and> fst (getKey 2000 (markFailed ''k'' True 1000 (newApiKeyManager [''k''] NoStorage))) = Some ''k''
   \<and> storage (snd (getKey 2000 (markFailed ''k'' True 1000 (newApiKeyManager [''k''] NoStorage)))) = NoStorage"
  by (simp add: pool_eval)


section \<open>Properties of the resilient invoker\<close>

subsection \<open>Searching the lowered text\<close>

lemma sublist_map_iff: "sublist m (map f s) \<longleftrightarrow> (\<exists>v. sublist v s \<and> map f v = m)"
proof
  assume "sublist m (map f s)"
  then obtain ps ss where "map f s = ps @ (m @ ss)" by (auto simp: sublist_def)
  then obtain us vs where s: "s = us @ vs" and vs: "map f vs = m @ ss"
    by (metis map_eq_append_conv)
  from vs obtain b c where "vs = b @ c" "map f b = m"
    by (metis map_eq_append_conv)
  with s have "sublist b s" "map f b = m" by auto
  then show "\<exists>v. sublist v s \<and> map f v = m" by blast
next
  assume "\<exists>v. sublist v s \<and> map f v = m"
  then show "sublist m (map f s)" using map_mono_sublist by blast
qed

lemma lowerChar_sameLetter:
  assumes "\<not> capital m"
  shows "lowerChar c = m \<longleftrightarrow> sameLetter c m"
proof (cases "capital c")
  case True
  then have n: "65 \<le> (of_char c :: nat)" "(of_char c :: nat) \<le> 90" by (simp_all add: capital_def)
  have l: "lowerChar c = char_of ((of_char c :: nat) + 32)"
    using n by (simp add: lowerChar_def Let_def)
  have "c \<noteq> m" using True assms by auto
  moreover have "char_of ((of_char c :: nat) + 32) = m \<longleftrightarrow> (of_char m :: nat) = of_char c + 32"
  proof
    assume "char_of ((of_char c :: nat) + 32) = m"
    then have "(of_char m :: nat) = (of_char c + 32) mod 256" by auto
    then show "(of_char m :: nat) = of_char c + 32" using n by simp
  next
    assume "(of_char m :: nat) = of_char c + 32"
    then have "char_of ((of_char c :: nat) + 32) = char_of (of_char m :: nat)" by simp
    then show "char_of ((of_char c :: nat) + 32) = m" by simp
  qed
  ultimately show ?thesis using True assms by (simp add: l sameLetter_def)
next
  case False
  then have "lowerChar c = c" by (auto simp: lowerChar_def capital_def Let_def)
  then show ?thesis using False assms by (auto simp: sameLetter_def)
qed

lemma lowered_matches:
  assumes "list_all (\<lambda>m. \<not> capital m) marker"
  shows "map lowerChar piece = marker \<longleftrightarrow> list_all2 sameLetter piece marker"
  using assms
proof (induction marker arbitrary: piece)
  case Nil
  then show ?case by simp
next
  case (Cons m marker)
  show ?case
  proof (cases piece)
    case Nil
    then show ?thesis by simp
  next
    case (Cons c rest)
    with Cons.prems Cons.IH[of rest] show ?thesis
      by (simp add: lowerChar_sameLetter)
  qed
qed

lemma includes_lowered:
  assumes "list_all (\<lambda>m. \<not> capital m) marker"
  shows "includes_str (toLowerCase str) marker \<longleftrightarrow> containsIgnoringCase str marker"
  by (auto simp: includes_str_def toLowerCase_def sublist_map_iff containsIgnoringCase_def
      list_ex_iff lowered_matches[OF assms])

lemma lowerChar_range: "lowerChar c = c \<or> (97 \<le> (of_char (lowerChar c) :: nat) \<and> (of_char (lowerChar c) :: nat) \<le> 122)"
  by (auto simp: lowerChar_def Let_def)

lemma lowerChar_digit:
  assumes "lowerChar c = d" "(of_char d :: nat) < 65"
  shows "c = d"
  using lowerChar_range[of c] assms by auto

lemma lowered_digits: "map lowerChar v = ''429'' \<longleftrightarrow> v = ''429''"
proof
  assume a: "map lowerChar v = ''429''"
  then obtain c1 c2 c3 where v: "v = [c1, c2, c3]" 
    by (auto simp: map_eq_Cons_conv)
  with a have "lowerChar c1 = CHR ''4''" "lowerChar c2 = CHR ''2''" "lowerChar c3 = CHR ''9''" by auto
  then have "c1 = CHR ''4''" "c2 = CHR ''2''" "c3 = CHR ''9''"
    by (auto dest!: lowerChar_digit)
  with v show "v = ''429''" by simp
next
  assume "v = ''429''"
  then show "map lowerChar v = ''429''" by (simp add: lowerChar_def)
qed

lemma includes_digits: "includes_str (toLowerCase str) ''429'' \<longleftrightarrow> sublist ''429'' str"
  by (simp add: includes_str_def toLowerCase_def sublist_map_iff lowered_digits)

lemma markers_small:
  "list_all (\<lambda>m. \<not> capital m) ''quota''" "list_all (\<lambda>m. \<not> capital m) ''limit''"
  "list_all (\<lambda>m. \<not> capital m) ''exhausted''"
  by (simp_all add: capital_def)

lemma isQuota_spec: "isQuota error = quotaTypeSpec error"
  by (auto simp: isQuota_def quotaTypeSpec_def hasQuotaMarker_def Let_def includes_digits
      includes_lowered[OF markers_small(1)] includes_lowered[OF markers_small(2)]
      includes_lowered[OF markers_small(3)])

subsection \<open>An attempt that catches an error\<close>

lemma getKey_returns_configured:
  assumes "wellFormed s" "getKey now s = (Some k, s1)"
  shows "k \<noteq> []" and "k \<in> set (map key (keys s1))" and "wellFormed s1"
proof -
  have "fst (getKey now s) = Some k" using assms(2) by simp
  then have m: "k \<in> set (map key (keys s))" by (rule getKey_returns_member)
  then show "k \<noteq> []" using assms(1) by (force simp: wellFormed_def)
  have s1: "s1 = snd (getKey now s)" using assms(2) by simp
  show "k \<in> set (map key (keys s1))" using m by (simp only: s1 map_key_getKey)
  show "wellFormed s1" using assms(1) by (simp add: s1 wellFormed_preserved)
qed

lemma failedRecord_fields:
  "isQuotaError (failedRecord q t r) = q"
  "failedAt (failedRecord q t r) = Some t"
  "failCount (failedRecord q t r) = failCount r + 1"
  by (simp_all add: failedRecord_def Let_def)

lemma quota_exceeded_is_quota: "isQuota \<lparr> status = None, asString = ''Error: Quota exceeded'' \<rparr>"
  by code_simp

lemma quota_exceeded_selection:
  "getKey 0 (newApiKeyManager [''k1'', ''k2''] NoStorage)
     = (Some ''k1'', snd (getKey 0 (newApiKeyManager [''k1'', ''k2''] NoStorage)))"
  by (simp add: pool_eval)

lemma quota_exceeded_run:
  "retryLoop (\<lambda>n. (int n * 10, int n * 10 + 5))
        (\<lambda>n k. if n = 0 then Inl \<lparr> status = None, asString = ''Error: Quota exceeded'' \<rparr>
                else Inr (7::nat))
        0 (Suc (Suc (Suc 0))) (newApiKeyManager [''k1'', ''k2''] NoStorage)
     = (Inr 7,
        \<lparr> keys = [\<lparr> key = ''k1'', failCount = 1, failedAt = Some 5, isQuotaError = True,
                     circuitState = OPEN, lastUsed = 0, successCount = 0, totalRequests = 1,
                     halfOpenTestTime = Some 300005 \<rparr>,
                   \<lparr> key = ''k2'', failCount = 0, failedAt = None, isQuotaError = False,
                     circuitState = CLOSED, lastUsed = 10, successCount = 1, totalRequests = 1,
                     halfOpenTestTime = None \<rparr>],
          storage = NoStorage \<rparr>)"
  by (simp add: attemptOnce_def quota_exceeded_is_quota pool_eval)

text \<open>
  Claim C5, as the code has it. The classification computed in the \<^verbatim>\<open>catch\<close> block is true
  exactly when the error's status is 429, or its text contains the digits 429, or its text
  contains one of the markers quota, limit, exhausted up to letter case. In any iteration
  of the retry loop on a well-formed pool in which the selection gives the secret \<open>k\<close> and
  the operation rejects with an error, the body leaves the pool that \<open>markFailed\<close> makes of
  the pool after the selection, for \<open>k\<close> and that classification, at the time of the
  report; the loop ends there with the error on the last attempt and otherwise goes on
  from that pool; and in that pool the record of \<open>k\<close> holds the classification as its quota
  flag, the time of the report as its failure time, and one failure more.
\<close>

theorem failures_reported_with_classification:
  assumes "wellFormed s"
      and "getKey (fst (clock attempt)) s = (Some k, afterSelection)"
      and "operation attempt k = Inl error"
  defines "reported \<equiv> markFailed k (quotaTypeSpec error) (snd (clock attempt)) afterSelection"
  shows "isQuota error = quotaTypeSpec error
       \<and> attemptOnce clock operation attempt lastAttempt s
           = (if lastAttempt then Threw (Rethrown error) else NextAttempt, reported)
       \<and> retryLoop clock operation attempt (Suc 0) s = (Inl (Rethrown error), reported)
       \<and> retryLoop clock operation attempt (Suc (Suc remaining)) s
           = retryLoop clock operation (attempt + 1) (Suc remaining) reported
       \<and> map_option isQuotaError (lookupKey k reported) = Some (quotaTypeSpec error)
       \<and> map_option failedAt (lookupKey k reported) = Some (Some (snd (clock attempt)))
       \<and> map_option failCount (lookupKey k reported)
           = map_option (\<lambda>r. failCount r + 1) (lookupKey k afterSelection)"
proof -
  note cfg = getKey_returns_configured[OF assms(1,2)]
  have body: "attemptOnce clock operation attempt b s
           = (if b then Threw (Rethrown error) else NextAttempt, reported)" for b
    using assms(2,3) cfg(1) by (simp add: attemptOnce_def reported_def isQuota_spec)
  have last: "retryLoop clock operation attempt (Suc 0) s = (Inl (Rethrown error), reported)"
    by (simp add: body)
  have more: "retryLoop clock operation attempt (Suc (Suc remaining)) s
           = retryLoop clock operation (attempt + 1) (Suc remaining) reported"
    by (simp add: body)
  obtain i where f: "findKey k (keys afterSelection) = Some i" using cfg(2) by (rule findKey_member)
  have rec: "lookupKey k reported = Some (failedRecord (quotaTypeSpec error) (snd (clock attempt)) (keys afterSelection ! i))"
    unfolding reported_def by (rule markFailed_effect(3)[OF cfg(3) f])
  have before: "lookupKey k afterSelection = Some (keys afterSelection ! i)" using f by (rule lookupKey_found)
  from isQuota_spec[of error] body[of lastAttempt] last more show ?thesis
    by (simp add: rec before failedRecord_fields)
qed

theorem failures_reported_with_classification_witness:
  "retryLoop (\<lambda>n. (int n * 10, int n * 10 + 5))
        (\<lambda>n k. if n = 0 then Inl \<lparr> status = None, asString = ''Error: Quota exceeded'' \<rparr>
                else Inr (7::nat))
        (Suc 0) (Suc (Suc 0))
        (markFailed ''k1'' (quotaTypeSpec \<lparr> status = None, asString = ''Error: Quota exceeded'' \<rparr>) 5
           (snd (getKey 0 (newApiKeyManager [''k1'', ''k2''] NoStorage))))
     = (Inr 7,
        \<lparr> keys = [\<lparr> key = ''k1'', failCount = 1, failedAt = Some 5, isQuotaError = True,
                     circuitState = OPEN, lastUsed = 0, successCount = 0, totalRequests = 1,
                     halfOpenTestTime = Some 300005 \<rparr>,
                   \<lparr> key = ''k2'', failCount = 0, failedAt = None, isQuotaError = False,
                     circuitState = CLOSED, lastUsed = 10, successCount = 1, totalRequests = 1,
                     halfOpenTestTime = None \<rparr>],
          storage = NoStorage \<rparr>)
   \<and> map_option isQuotaError (lookupKey ''k1''
        (markFailed ''k1'' (quotaTypeSpec \<lparr> status = None, asString = ''Error: Quota exceeded'' \<rparr>) 5
           (snd (getKey 0 (newApiKeyManager [''k1'', ''k2''] NoStorage)))))
     = Some (quotaTypeSpec \<lparr> status = None, asString = ''Error: Quota exceeded'' \<rparr>)"
proof -
  have wf: "wellFormed (newApiKeyManager [''k1'', ''k2''] NoStorage)"
    by (simp add: wellFormed_def newApiKeyManager_def loadState_def freshKey_def)
  have sel: "getKey (fst ((\<lambda>n. (int n * 10, int n * 10 + 5)) 0)) (newApiKeyManager [''k1'', ''k2''] NoStorage)
     = (Some ''k1'', snd (getKey 0 (newApiKeyManager [''k1'', ''k2''] NoStorage)))"
    using quota_exceeded_selection by simp
  have rej: "(\<lambda>n k. if n = 0 then Inl \<lparr> status = None, asString = ''Error: Quota exceeded'' \<rparr>
                else Inr (7::nat)) 0 ''k1'' = Inl \<lparr> status = None, asString = ''Error: Quota exceeded'' \<rparr>"
    by simp
  from failures_reported_with_classification
         [where s = "newApiKeyManager [''k1'', ''k2''] NoStorage"
            and clock = "\<lambda>n. (int n * 10, int n * 10 + 5)" and attempt = 0 and k = "''k1''"
            and afterSelection = "snd (getKey 0 (newApiKeyManager [''k1'', ''k2''] NoStorage))"
            and operation = "\<lambda>n k. if n = 0 then Inl \<lparr> status = None, asString = ''Error: Quota exceeded'' \<rparr>
                else Inr (7::nat)"
            and error = "\<lparr> status = None, asString = ''Error: Quota exceeded'' \<rparr>"
            and lastAttempt = False and remaining = "Suc 0"]
       wf sel rej quota_exceeded_run
  show ?thesis by simp
qed

text \<open>
  Claim C5 as stated fails: an error with no status whose text is \<open>Error: 14290\<close> holds no
  marker and no HTTP status, and is classified as a quota error for the digits 429 in it.
\<close>

theorem digits_429_classified_as_quota:
  "isQuota \<lparr> status = None, asString = ''Error: 14290'' \<rparr>
   \<and> \<not> quotaTypeAsClaimed \<lparr> status = None, asString = ''Error: 14290'' \<rparr>"
  by code_simp

section \<open>Properties of the layer engine\<close>

subsection \<open>History\<close>



lemma commit_evicts_oldest:
  assumes "length (history s) = 20" "historyIndex s = 19"
  shows "history (commit ls s) = tl (history s) @ [ls]"
proof -
  have "history s \<noteq> []" using assms(1) by auto
  then show ?thesis using assms by (simp add: commit_def Let_def)
qed





lemma commitFrom_same_render: "commitFrom s ls s = commit ls s"
  by (simp add: commitFrom_def commit_def)





subsection \<open>Identifiers that match no layer\<close>

lemma findIndex_None_iff: "findIndex i ls = None \<longleftrightarrow> i \<notin> uid ` set ls"
proof -
  have "findIndex i ls = None \<longleftrightarrow> filter (\<lambda>n. uid (ls ! n) = i) [0 ..< length ls] = []"
    by (simp add: findIndex_def split: list.splits)
  also have "\<dots> \<longleftrightarrow> (\<forall>n < length ls. uid (ls ! n) \<noteq> i)"
    by (auto simp: filter_empty_conv)
  also have "\<dots> \<longleftrightarrow> i \<notin> uid ` set ls"
    by (force simp: in_set_conv_nth image_iff)
  finally show ?thesis .
qed

lemma unknown_id_update_noop:
  assumes "i \<notin> uid ` set (layers s)"
  shows "updateLayer i u s = s"
proof -
  have "map (\<lambda>l. if uid l = i then applyUpdates l u else l) (layers s) = layers s"
    using assms by (intro map_idI) auto
  then show ?thesis by (simp add: updateLayer_def)
qed

lemma unknown_id_reorder_noop:
  assumes "i \<notin> uid ` set (layers s)"
  shows "reorderLayer i d s = s"
  using assms by (simp add: reorderLayer_def findIndex_None_iff[THEN iffD2])

lemma unknown_id_remove_commits:
  assumes "i \<notin> uid ` set (layers s)"
  shows "removeLayer i s =
           (commit (layers s) s)\<lparr> activeLayerId := (if activeLayerId s = Some i then None else activeLayerId s) \<rparr>"
proof -
  have "filter (\<lambda>l. uid l \<noteq> i) (layers s) = layers s"
    using assms by (auto simp: filter_id_conv)
  then show ?thesis by (simp add: removeLayer_def Let_def commit_def)
qed

text \<open>
  Claim C7. \<open>updateLayer\<close> and \<open>reorderLayer\<close> with an identifier that matches no layer
  leave the state as it was (the two lemmas above), but \<open>removeLayer\<close> commits all the
  same: on a fresh hook holding one layer, removing the unknown identifier \<open>ghost\<close> turns
  the history of one entry into a history of two equal entries and moves the cursor to 1;
  and a selection that names \<open>ghost\<close> is cleared.
\<close>

theorem remove_unknown_id_pushes_history:
  "history (useStudioState [\<lparr> uid = ''a'', assetId = ''logo'', x = 50, y = 50, scale = 1, rotation = 0,
          blendMode = Some normal \<rparr>]) = [[\<lparr> uid = ''a'', assetId = ''logo'', x = 50, y = 50, scale = 1, rotation = 0,
          blendMode = Some normal \<rparr>]]
   \<and> historyIndex (useStudioState [\<lparr> uid = ''a'', assetId = ''logo'', x = 50, y = 50, scale = 1, rotation = 0,
          blendMode = Some normal \<rparr>]) = 0
   \<and> history (removeLayer ''ghost'' (useStudioState [\<lparr> uid = ''a'', assetId = ''logo'', x = 50, y = 50, scale = 1, rotation = 0,
          blendMode = Some normal \<rparr>])) = [[\<lparr> uid = ''a'', assetId = ''logo'', x = 50, y = 50, scale = 1, rotation = 0,
          blendMode = Some normal \<rparr>], [\<lparr> uid = ''a'', assetId = ''logo'', x = 50, y = 50, scale = 1, rotation = 0,
          blendMode = Some normal \<rparr>]]
   \<and> historyIndex (removeLayer ''ghost'' (useStudioState [\<lparr> uid = ''a'', assetId = ''logo'', x = 50, y = 50, scale = 1, rotation = 0,
          blendMode = Some normal \<rparr>])) = 1
   \<and> activeLayerId (removeLayer ''ghost''
        ((useStudioState [\<lparr> uid = ''a'', assetId = ''logo'', x = 50, y = 50, scale = 1, rotation = 0,
          blendMode = Some normal \<rparr>])\<lparr> activeLayerId := Some ''ghost'' \<rparr>)) = None"
  by (simp add: useStudioState_def removeLayer_def commit_def Let_def)

section \<open>Properties of the gesture interpreter\<close>

subsection \<open>A drag session\<close>

lemma dragLayers_idem:
  "dragLayers g rect e2 (dragLayers g rect e1 ls) = dragLayers g rect e2 ls"
  by (simp add: dragLayers_def Let_def comp_def cong: if_cong)

lemma dragLayers_hasMoved: "dragLayers (g\<lparr> hasMoved := b \<rparr>) rect e ls = dragLayers g rect e ls"
  by (simp add: dragLayers_def)

lemma dragLayers_formula:
  "dragLayers g (w, h) e ls =
           map (\<lambda>l. if uid l = layerId g
                     then l\<lparr> x := max 0 (min 100 (initialLayerX g + (eventX e - startX g) * 100 / w)),
                             y := max 0 (min 100 (initialLayerY g + (eventY e - startY g) * 100 / h)) \<rparr>
                     else l) ls"
  by (simp add: dragLayers_def Let_def)

lemma pointer_down_drag:
  assumes "\<not> isProcessing s" "canvasRect s = Some rect"
      and "find (\<lambda>l. uid l = lid) (layers s) = Some l0" "twoTouches e0 = None"
  shows "handlePointerDown e0 lid s =
           s\<lparr> activeLayerId := Some lid,
               gesture := Some \<lparr> layerId = lid, type = drag, startX = eventX e0, startY = eventY e0,
                          startScale = scale l0, startRot = rotation l0,
                          initialLayerX = x l0, initialLayerY = y l0,
                          initialDist = 0, initialAngle = 0, hasMoved = False \<rparr> \<rparr>"
  using assms by (simp add: handlePointerDown_def Let_def)

lemma handleMove_drag:
  assumes "\<not> isProcessing s" "canvasRect s = Some rect" "gesture s = Some g" "type g = drag"
  shows "handleMove e s = s\<lparr> gesture := Some (g\<lparr> hasMoved := True \<rparr>), layers := dragLayers g rect e (layers s) \<rparr>"
  using assms by (simp add: handleMove_def Let_def split: option.splits)

lemma moves_drag:
  assumes "\<not> isProcessing s" "canvasRect s = Some rect" "gesture s = Some g" "type g = drag" "es \<noteq> []"
  shows "foldl (\<lambda>st e. handleMove e st) s es =
           s\<lparr> gesture := Some (g\<lparr> hasMoved := True \<rparr>), layers := dragLayers g rect (last es) (layers s) \<rparr>"
  using assms
proof (induction es arbitrary: s g)
  case Nil
  then show ?case by simp
next
  case (Cons e es)
  let ?s1 = "handleMove e s"
  have s1: "?s1 = s\<lparr> gesture := Some (g\<lparr> hasMoved := True \<rparr>), layers := dragLayers g rect e (layers s) \<rparr>"
    using Cons.prems by (simp add: handleMove_drag)
  show ?case
  proof (cases "es = []")
    case True
    then show ?thesis using s1 by simp
  next
    case False
    have "foldl (\<lambda>st e. handleMove e st) ?s1 es =
            ?s1\<lparr> gesture := Some ((g\<lparr> hasMoved := True \<rparr>)\<lparr> hasMoved := True \<rparr>),
                 layers := dragLayers (g\<lparr> hasMoved := True \<rparr>) rect (last es) (layers ?s1) \<rparr>"
      using Cons.prems False by (intro Cons.IH) (simp_all add: s1)
    then show ?thesis using False by (simp add: s1 dragLayers_idem dragLayers_hasMoved)
  qed
qed

lemma commit_ignores_layers: "commit ls (s\<lparr> layers := ls' \<rparr>) = commit ls s"
  by (simp add: commit_def Let_def)

lemma commit_gesture: "commit ls (s\<lparr> gesture := gg \<rparr>) = (commit ls s)\<lparr> gesture := gg \<rparr>"
  by (simp add: commit_def Let_def)

text \<open>
  Claim C9. On a mounted canvas of positive size that is not disabled, a pointer-down with
  one pointer on the layer \<open>lid\<close>, found at \<open>(x l0, y l0)\<close>, opens a drag session. After
  every move event \<open>e\<close> of the session, whatever moves came before, the layers named \<open>lid\<close>
  stand at \<open>(clamp (x l0 + dx * 100 / w), clamp (y l0 + dy * 100 / h))\<close>, where \<open>(dx, dy)\<close>
  is the displacement of the pointer since the pointer-down and the clamp is to \<open>[0, 100]\<close>,
  and the other layers are untouched. A pointer-up after at least one move is one \<open>commit\<close>
  of that layer list; a pointer-up with no move commits nothing: it leaves the state as it
  was before the session but for the selection.
\<close>

theorem drag_session:
  assumes "\<not> isProcessing s" "canvasRect s = Some (w, h)" "0 < w" "0 < h"
      and "find (\<lambda>l. uid l = lid) (layers s) = Some l0" "twoTouches e0 = None"
  defines "moved \<equiv> \<lambda>e. map (\<lambda>l. if uid l = lid
                     then l\<lparr> x := max 0 (min 100 (x l0 + (eventX e - eventX e0) * 100 / w)),
                             y := max 0 (min 100 (y l0 + (eventY e - eventY e0) * 100 / h)) \<rparr>
                     else l) (layers s)"
      and "session \<equiv> \<lambda>es. foldl (\<lambda>st e. handleMove e st) (handlePointerDown e0 lid s) es"
  shows "layers (session (es @ [e])) = moved e
       \<and> handleUp commit (session (es @ [e])) =
           (commit (moved e) (s\<lparr> activeLayerId := Some lid \<rparr>))\<lparr> gesture := None \<rparr>
       \<and> handleUp commit (session []) = s\<lparr> activeLayerId := Some lid, gesture := None \<rparr>"
proof -
  define g where "g = \<lparr> layerId = lid, type = drag, startX = eventX e0, startY = eventY e0,
                          startScale = scale l0, startRot = rotation l0,
                          initialLayerX = x l0, initialLayerY = y l0,
                          initialDist = 0, initialAngle = 0, hasMoved = False \<rparr>"
  define s1 where "s1 = s\<lparr> activeLayerId := Some lid, gesture := Some g \<rparr>"
  have pd: "handlePointerDown e0 lid s = s1"
    using pointer_down_drag[OF assms(1,2,5,6)] by (simp add: s1_def g_def)
  have s1_props: "\<not> isProcessing s1" "canvasRect s1 = Some (w, h)" "gesture s1 = Some g" "type g = drag"
    using assms(1,2) by (simp_all add: s1_def g_def)
  have after: "session (es @ [e]) =
           s1\<lparr> gesture := Some (g\<lparr> hasMoved := True \<rparr>), layers := dragLayers g (w, h) e (layers s1) \<rparr>"
    unfolding session_def pd using moves_drag[OF s1_props, of "es @ [e]"] by simp
  have dl: "dragLayers g (w, h) e (layers s) = moved e"
    by (simp add: dragLayers_formula moved_def g_def)
  have ls1: "layers s1 = layers s" by (simp add: s1_def)
  have a: "layers (session (es @ [e])) = moved e"
    by (simp add: after ls1 dl)
  have b: "handleUp commit (session (es @ [e])) =
           (commit (moved e) (s\<lparr> activeLayerId := Some lid \<rparr>))\<lparr> gesture := None \<rparr>"
    by (simp add: after ls1 dl handleUp_def s1_def commit_ignores_layers commit_gesture)
  have c: "handleUp commit (session []) = s\<lparr> activeLayerId := Some lid, gesture := None \<rparr>"
    by (simp add: session_def pd handleUp_def s1_def g_def)
  from a b c show ?thesis by blast
qed

theorem drag_session_witness:
  "map x (layers (handleMove (MouseEvent 180 100) (handlePointerDown (MouseEvent 100 100) ''a''
      \<lparr> layers = [\<lparr> uid = ''a'', assetId = ''logo'', x = 50, y = 50, scale = 1, rotation = 0,
                       blendMode = Some normal \<rparr>],
           activeLayerId = None,
           history = [[\<lparr> uid = ''a'', assetId = ''logo'', x = 50, y = 50, scale = 1, rotation = 0,
                       blendMode = Some normal \<rparr>]],
           historyIndex = 0,
           gesture = None, canvasRect = Some (800, 600), isProcessing = False \<rparr>))) = [60]
   \<and> length (history (handleUp commit (handleMove (MouseEvent 180 100)
        (handlePointerDown (MouseEvent 100 100) ''a''
      \<lparr> layers = [\<lparr> uid = ''a'', assetId = ''logo'', x = 50, y = 50, scale = 1, rotation = 0,
                       blendMode = Some normal \<rparr>],
           activeLayerId = None,
           history = [[\<lparr> uid = ''a'', assetId = ''logo'', x = 50, y = 50, scale = 1, rotation = 0,
                       blendMode = Some normal \<rparr>]],
           historyIndex = 0,
           gesture = None, canvasRect = Some (800, 600), isProcessing = False \<rparr>)))) = 2
   \<and> length (history (handleUp commit (handlePointerDown (MouseEvent 100 100) ''a''
      \<lparr> layers = [\<lparr> uid = ''a'', assetId = ''logo'', x = 50, y = 50, scale = 1, rotation = 0,
                       blendMode = Some normal \<rparr>],
           activeLayerId = None,
           history = [[\<lparr> uid = ''a'', assetId = ''logo'', x = 50, y = 50, scale = 1, rotation = 0,
                       blendMode = Some normal \<rparr>]],
           historyIndex = 0,
           gesture = None, canvasRect = Some (800, 600), isProcessing = False \<rparr>))) = 1"
  using drag_session [of "\<lparr> layers = [\<lparr> uid = ''a'', assetId = ''logo'', x = 50, y = 50, scale = 1, rotation = 0,
                       blendMode = Some normal \<rparr>],
           activeLayerId = None,
           history = [[\<lparr> uid = ''a'', assetId = ''logo'', x = 50, y = 50, scale = 1, rotation = 0,
                       blendMode = Some normal \<rparr>]],
           historyIndex = 0,
           gesture = None, canvasRect = Some (800, 600), isProcessing = False \<rparr>" 800 600 "''a''"
           "\<lparr> uid = ''a'', assetId = ''logo'', x = 50, y = 50, scale = 1, rotation = 0,
                       blendMode = Some normal \<rparr>" "MouseEvent 100 100" "[]" "MouseEvent 180 100"]
  by (simp add: commit_def)

subsection \<open>A pinch\<close>

lemma jsRem_quarter_turn_back: "jsRem (- 90) 360 = - 90"
proof -
  have "\<lceil>- (1 / 4 :: real)\<rceil> = 0" by (rule ceiling_unique) simp_all
  then show ?thesis by (simp add: jsRem_def)
qed

text \<open>
  Claim C6. The rotation a pinch leaves is not always in \<open>[0, 360)\<close>: with a layer at
  rotation 0, two touches that start one above the other (angle 90 degrees) and move to lie
  side by side (angle 0) give an angle delta of -90, and the remainder keeps that sign.
\<close>

theorem pinch_rotation_negative:
  "map rotation (layers (handleMove (TouchEvent \<lparr> clientX = 0, clientY = 0 \<rparr> [\<lparr> clientX = 10, clientY = 0 \<rparr>])
      (handlePointerDown (TouchEvent \<lparr> clientX = 0, clientY = 0 \<rparr> [\<lparr> clientX = 0, clientY = 10 \<rparr>]) ''a''
         \<lparr> layers = [\<lparr> uid = ''a'', assetId = ''logo'', x = 50, y = 50, scale = 1, rotation = 0,
                       blendMode = Some normal \<rparr>],
           activeLayerId = None, history = [[]], historyIndex = 0,
           gesture = None, canvasRect = Some (800, 600), isProcessing = False \<rparr>))) = [- 90]"
  by (simp add: handleMove_def handlePointerDown_def pinchLayers_def getAngle_def getDist_def atan2_def
      jsRem_quarter_turn_back Let_def)


section \<open>Properties of the capture crop\<close>






lemma capture_crop_truncates:
  "sWidth (captureCrop 16 9 1 2) = 9 / 2 \<and> cropScale (captureCrop 16 9 1 2) = 1
   \<and> canvasWidth (captureCrop 16 9 1 2) = 4 \<and> canvasHeight (captureCrop 16 9 1 2) = 9"
proof -
  have "\<lfloor>9 / 2 :: real\<rfloor> = 4" by (rule floor_unique) simp_all
  then show ?thesis by (simp add: captureCrop_def Let_def MAX_DIM_def)
qed

end
